theory Spec2Isabelle
  imports Main "HOL-Library.Word"
begin

section \<open>Package logger: the data model\<close>

text \<open>
  \<^verbatim>\<open>zapcore.Level\<close> is an \<^verbatim>\<open>int8\<close>; the source compares levels with the signed
  order of that type (\<^verbatim>\<open>lvl >= opt.level\<close>), which is \<open>\<le>s\<close> on \<open>8 word\<close>.
  The named levels are the constants of zapcore.
\<close>

type_synonym Level = "8 word"

definition DebugLevel :: Level where "DebugLevel = - 1"
definition InfoLevel :: Level where "InfoLevel = 0"
definition WarnLevel :: Level where "WarnLevel = 1"
definition ErrorLevel :: Level where "ErrorLevel = 2"
definition DPanicLevel :: Level where "DPanicLevel = 3"
definition PanicLevel :: Level where "PanicLevel = 4"
definition FatalLevel :: Level where "FatalLevel = 5"

text \<open>The two constants of logger.go; \<^verbatim>\<open>time.RFC3339\<close> is the layout string of Go's time package.\<close>

definition DefaultLevel :: Level where
  "DefaultLevel = InfoLevel"

definition DefaultTimeLayout :: string where
  "DefaultTimeLayout = ''2006-01-02T15:04:05Z07:00''"

text \<open>
  A Go \<^verbatim>\<open>error\<close> value is represented by its message. A panic carries the error it was
  raised with; calling a nil function value panics too.
\<close>

type_synonym error = string

datatype panic = PanicError error | NilDereference

text \<open>
  The \<^verbatim>\<open>lumberjack.Logger\<close> struct literal of \<^verbatim>\<open>WithFileRotationP\<close>, and the values an
  \<^verbatim>\<open>io.Writer\<close> takes in this package: the two console streams, an opened \<^verbatim>\<open>*os.File\<close>
  (\<open>'f\<close> is the type of file handles), a rotating lumberjack writer, any of them
  wrapped by \<^verbatim>\<open>zapcore.Lock\<close>, and several of them written together.
\<close>

record lumberjack_Logger =
  Filename :: string
  MaxSize :: int
  MaxBackups :: int
  MaxAge :: int
  LocalTime :: bool
  Compress :: bool

datatype 'f Writer =
    Stdout
  | Stderr
  | File 'f
  | Lumberjack lumberjack_Logger
  | Lock "'f Writer"
  | MultiWriteSyncer "'f Writer list"

text \<open>
  The private struct \<^verbatim>\<open>option\<close>. The map \<^verbatim>\<open>fields\<close> (\<open>fields_map\<close> here) is a partial function
  from keys to values; the field \<^verbatim>\<open>file\<close> is \<open>file_writer\<close> here, and nil is \<open>None\<close>.
\<close>

record 'f option_rec =
  level :: Level
  fields_map :: "string \<rightharpoonup> string"
  file_writer :: "'f Writer option"
  timeLayout :: string
  disableConsole :: bool

text \<open>
  \<^verbatim>\<open>type Option func(*option)\<close>: a function value that updates the struct behind the
  pointer, or nil (\<open>None\<close>).
\<close>

type_synonym 'f Option = "('f option_rec \<Rightarrow> 'f option_rec) option"

section \<open>The option constructors\<close>

definition WithDebugLevel :: "'f Option" where
  "WithDebugLevel = Some (\<lambda>opt. opt\<lparr>level := DebugLevel\<rparr>)"

definition WithInfoLevel :: "'f Option" where
  "WithInfoLevel = Some (\<lambda>opt. opt\<lparr>level := InfoLevel\<rparr>)"

definition WithWarnLevel :: "'f Option" where
  "WithWarnLevel = Some (\<lambda>opt. opt\<lparr>level := WarnLevel\<rparr>)"

definition WithErrorLevel :: "'f Option" where
  "WithErrorLevel = Some (\<lambda>opt. opt\<lparr>level := ErrorLevel\<rparr>)"

definition WithField :: "string \<Rightarrow> string \<Rightarrow> 'f Option" where
  "WithField key val = Some (\<lambda>opt. opt\<lparr>fields_map := (fields_map opt)(key \<mapsto> val)\<rparr>)"

text \<open>
  The operating system is a parameter: \<open>'w\<close> is the state of the file system,
  \<^verbatim>\<open>filepath.Dir\<close> is a function on paths, and \<^verbatim>\<open>os.MkdirAll\<close> and \<^verbatim>\<open>os.OpenFile\<close> either
  fail with an error or return the new state (and the handle). The source passes the
  permission bits \<^verbatim>\<open>0766\<close> to both and the flags
  \<^verbatim>\<open>os.O_CREATE|os.O_APPEND|os.O_RDWR\<close> to \<^verbatim>\<open>os.OpenFile\<close>.
\<close>

datatype open_flag = O_CREATE | O_APPEND | O_RDWR

record ('w, 'f) os =
  filepath_Dir :: "string \<Rightarrow> string"
  os_MkdirAll :: "string \<Rightarrow> nat \<Rightarrow> 'w \<Rightarrow> error + 'w"
  os_OpenFile :: "string \<Rightarrow> open_flag list \<Rightarrow> nat \<Rightarrow> 'w \<Rightarrow> error + ('f \<times> 'w)"

definition perm_0766 :: nat where
  "perm_0766 = 7 * 64 + 6 * 8 + 6"

text \<open>
  \<^verbatim>\<open>WithFileP\<close> creates the directory and opens the file when it is called, and panics
  when either fails; the closure it returns only stores the locked handle.
\<close>

definition WithFileP :: "('w, 'f) os \<Rightarrow> string \<Rightarrow> 'w \<Rightarrow> panic + ('f Option \<times> 'w)" where
  "WithFileP sys path w =
     (let dir = filepath_Dir sys path in
      case os_MkdirAll sys dir perm_0766 w of
        Inl err \<Rightarrow> Inl (PanicError err)
      | Inr w1 \<Rightarrow>
          (case os_OpenFile sys path [O_CREATE, O_APPEND, O_RDWR] perm_0766 w1 of
             Inl err \<Rightarrow> Inl (PanicError err)
           | Inr (f, w2) \<Rightarrow> Inr (Some (\<lambda>opt. opt\<lparr>file_writer := Some (Lock (File f))\<rparr>), w2)))"

text \<open>
  \<^verbatim>\<open>WithFileRotationP\<close> creates the directory only; the file itself is left to lumberjack,
  which opens it at the first write. Its only parameter is the path.
\<close>

definition WithFileRotationP :: "('w, 'f) os \<Rightarrow> string \<Rightarrow> 'w \<Rightarrow> panic + ('f Option \<times> 'w)" where
  "WithFileRotationP sys path w =
     (let dir = filepath_Dir sys path in
      case os_MkdirAll sys dir perm_0766 w of
        Inl err \<Rightarrow> Inl (PanicError err)
      | Inr w1 \<Rightarrow>
          Inr (Some (\<lambda>opt. opt\<lparr>file_writer := Some (Lumberjack
                 \<lparr>Filename = path, MaxSize = 128, MaxBackups = 300, MaxAge = 30,
                  LocalTime = True, Compress = True\<rparr>)\<rparr>), w1))"

definition WithTimeLayout :: "string \<Rightarrow> 'f Option" where
  "WithTimeLayout layout = Some (\<lambda>opt. opt\<lparr>timeLayout := layout\<rparr>)"

definition WithDisableConsole :: "'f Option" where
  "WithDisableConsole = Some (\<lambda>opt. opt\<lparr>disableConsole := True\<rparr>)"

section \<open>The zap cores the logger is assembled from\<close>

text \<open>
  The part of zapcore that \<^verbatim>\<open>NewJSONLogger\<close> calls. A core made by \<^verbatim>\<open>zapcore.NewCore\<close>
  holds an encoder, a sink and a level enabler and writes an entry to its sink exactly
  when the enabler accepts the entry's level. \<^verbatim>\<open>zapcore.NewTee\<close> of no core is the no-op
  core, of one core is that core, and of several cores offers every entry to each of them.
  \<^verbatim>\<open>zapcore.AddSync\<close> adds nothing to where the bytes go, and
  \<^verbatim>\<open>zapcore.NewMultiWriteSyncer\<close> of a single writer is that writer.
\<close>

record EncoderConfig =
  TimeKey :: string
  LevelKey :: string
  NameKey :: string
  CallerKey :: string
  MessageKey :: string
  StacktraceKey :: string
  EncodeTimeLayout :: string

datatype 'f Core =
    NopCore
  | IOCore EncoderConfig "'f Writer" "Level \<Rightarrow> bool"
  | MultiCore "'f Core list"

definition NewJSONEncoder :: "EncoderConfig \<Rightarrow> EncoderConfig" where
  "NewJSONEncoder cfg = cfg"

definition NewCore :: "EncoderConfig \<Rightarrow> 'f Writer \<Rightarrow> (Level \<Rightarrow> bool) \<Rightarrow> 'f Core" where
  "NewCore enc ws enab = IOCore enc ws enab"

fun NewTee :: "'f Core list \<Rightarrow> 'f Core" where
  "NewTee [] = NopCore"
| "NewTee [c] = c"
| "NewTee cs = MultiCore cs"

definition AddSync :: "'f Writer \<Rightarrow> 'f Writer" where
  "AddSync w = w"

fun NewMultiWriteSyncer :: "'f Writer list \<Rightarrow> 'f Writer" where
  "NewMultiWriteSyncer [w] = w"
| "NewMultiWriteSyncer ws = MultiWriteSyncer ws"

text \<open>
  \<open>delivered c lvl\<close> lists, in the order of the tee, the sinks that receive an entry of
  level \<open>lvl\<close> offered to the core \<open>c\<close>; \<open>sinks c\<close> lists all the sinks of \<open>c\<close>.
\<close>

fun delivered :: "'f Core \<Rightarrow> Level \<Rightarrow> 'f Writer list" where
  "delivered NopCore lvl = []"
| "delivered (IOCore enc ws enab) lvl = (if enab lvl then [ws] else [])"
| "delivered (MultiCore cs) lvl = concat (map (\<lambda>c. delivered c lvl) cs)"

fun sinks :: "'f Core \<Rightarrow> 'f Writer list" where
  "sinks NopCore = []"
| "sinks (IOCore enc ws enab) = [ws]"
| "sinks (MultiCore cs) = concat (map sinks cs)"

text \<open>
  A \<^verbatim>\<open>*zap.Logger\<close>: its core, the two options \<^verbatim>\<open>NewJSONLogger\<close> passes to \<^verbatim>\<open>zap.New\<close>,
  and the string fields added by \<^verbatim>\<open>zap.Fields\<close>. The source adds them while ranging over
  a Go map, whose iteration order is unspecified, so they are kept as a map.
\<close>

record 'f Logger =
  core :: "'f Core"
  addCaller :: bool
  errorOutput :: "'f Writer"
  staticFields :: "string \<rightharpoonup> string"

section \<open>NewJSONLogger\<close>

text \<open>The struct literal \<^verbatim>\<open>&option{level: DefaultLevel, fields: make(map[string]string)}\<close>.\<close>

definition newOption :: "'f option_rec" where
  "newOption = \<lparr>level = DefaultLevel, fields_map = Map.empty, file_writer = None,
                timeLayout = [], disableConsole = False\<rparr>"

text \<open>The loop \<^verbatim>\<open>for _, f := range opts { f(opt) }\<close>; calling a nil \<^verbatim>\<open>f\<close> panics.\<close>

fun applyOptions :: "'f Option list \<Rightarrow> 'f option_rec \<Rightarrow> panic + 'f option_rec" where
  "applyOptions [] opt = Inr opt"
| "applyOptions (None # fs) opt = Inl NilDereference"
| "applyOptions (Some f # fs) opt = applyOptions fs (f opt)"

text \<open>The body of \<^verbatim>\<open>NewJSONLogger\<close> after the loop, on the struct the options have filled.\<close>

definition assemble :: "'f option_rec \<Rightarrow> 'f Logger \<times> error option" where
  "assemble opt =
     (let layout = (if timeLayout opt \<noteq> [] then timeLayout opt else DefaultTimeLayout);
          encoderConfig = \<lparr>TimeKey = ''time'', LevelKey = ''level'', NameKey = ''logger'',
                           CallerKey = ''caller'', MessageKey = ''msg'',
                           StacktraceKey = ''stacktrace'', EncodeTimeLayout = layout\<rparr>;
          jsonEncoder = NewJSONEncoder encoderConfig;
          lowPriority = (\<lambda>lvl. level opt \<le>s lvl \<and> lvl <s ErrorLevel);
          highPriority = (\<lambda>lvl. level opt \<le>s lvl \<and> ErrorLevel \<le>s lvl);
          stdout = Lock Stdout;
          stderr = Lock Stderr;
          core0 = NewTee [];
          core1 = (if \<not> disableConsole opt
                   then NewTee [NewCore jsonEncoder (NewMultiWriteSyncer [stdout]) lowPriority,
                                NewCore jsonEncoder (NewMultiWriteSyncer [stderr]) highPriority]
                   else core0);
          core2 = (case file_writer opt of
                     Some fw \<Rightarrow>
                       NewTee [core1, NewCore jsonEncoder (AddSync fw) (\<lambda>lvl. level opt \<le>s lvl)]
                   | None \<Rightarrow> core1)
      in (\<lparr>core = core2, addCaller = True, errorOutput = stderr, staticFields = fields_map opt\<rparr>,
          None))"

definition NewJSONLogger :: "'f Option list \<Rightarrow> panic + ('f Logger \<times> error option)" where
  "NewJSONLogger opts =
     (case applyOptions opts newOption of
        Inl p \<Rightarrow> Inl p
      | Inr opt \<Rightarrow> Inr (assemble opt))"

section \<open>Calling NewJSONLogger\<close>

text \<open>
  A call such as the one in main.go,
  \<^verbatim>\<open>logger.NewJSONLogger(logger.WithDisableConsole(), ..., logger.WithFileP(path))\<close>,
  first evaluates its argument expressions from left to right, each of them a call of one
  of the option constructors, and then runs \<^verbatim>\<open>NewJSONLogger\<close> on the resulting options.
  A panic in an argument ends the call before \<^verbatim>\<open>NewJSONLogger\<close> starts.
\<close>

datatype OptionCall =
    CallWithDebugLevel
  | CallWithInfoLevel
  | CallWithWarnLevel
  | CallWithErrorLevel
  | CallWithField string string
  | CallWithFileP string
  | CallWithFileRotationP string
  | CallWithTimeLayout string
  | CallWithDisableConsole

fun evalCall :: "('w, 'f) os \<Rightarrow> OptionCall \<Rightarrow> 'w \<Rightarrow> panic + ('f Option \<times> 'w)" where
  "evalCall sys CallWithDebugLevel w = Inr (WithDebugLevel, w)"
| "evalCall sys CallWithInfoLevel w = Inr (WithInfoLevel, w)"
| "evalCall sys CallWithWarnLevel w = Inr (WithWarnLevel, w)"
| "evalCall sys CallWithErrorLevel w = Inr (WithErrorLevel, w)"
| "evalCall sys (CallWithField k v) w = Inr (WithField k v, w)"
| "evalCall sys (CallWithFileP path) w = WithFileP sys path w"
| "evalCall sys (CallWithFileRotationP path) w = WithFileRotationP sys path w"
| "evalCall sys (CallWithTimeLayout layout) w = Inr (WithTimeLayout layout, w)"
| "evalCall sys CallWithDisableConsole w = Inr (WithDisableConsole, w)"

fun evalCalls :: "('w, 'f) os \<Rightarrow> OptionCall list \<Rightarrow> 'w \<Rightarrow> panic + ('f Option list \<times> 'w)" where
  "evalCalls sys [] w = Inr ([], w)"
| "evalCalls sys (c # cs) w =
     (case evalCall sys c w of
        Inl p \<Rightarrow> Inl p
      | Inr (f, w1) \<Rightarrow>
          (case evalCalls sys cs w1 of
             Inl p \<Rightarrow> Inl p
           | Inr (fs, w2) \<Rightarrow> Inr (f # fs, w2)))"

definition callNewJSONLogger ::
  "('w, 'f) os \<Rightarrow> OptionCall list \<Rightarrow> 'w \<Rightarrow> panic + (('f Logger \<times> error option) \<times> 'w)" where
  "callNewJSONLogger sys cs w =
     (case evalCalls sys cs w of
        Inl p \<Rightarrow> Inl p
      | Inr (opts, w1) \<Rightarrow>
          (case NewJSONLogger opts of
             Inl p \<Rightarrow> Inl p
           | Inr r \<Rightarrow> Inr (r, w1)))"

text \<open>
  What the option calls of a list say, read off the list alone: the last call that sets a
  singular field decides it, and the field entries are collected with a later entry
  replacing an earlier one of the same key.
\<close>

fun last_setting :: "('a \<Rightarrow> 'b option) \<Rightarrow> 'a list \<Rightarrow> 'b option" where
  "last_setting g [] = None"
| "last_setting g (x # xs) =
     (case last_setting g xs of Some y \<Rightarrow> Some y | None \<Rightarrow> g x)"

fun sets_level :: "OptionCall \<Rightarrow> Level option" where
  "sets_level CallWithDebugLevel = Some DebugLevel"
| "sets_level CallWithInfoLevel = Some InfoLevel"
| "sets_level CallWithWarnLevel = Some WarnLevel"
| "sets_level CallWithErrorLevel = Some ErrorLevel"
| "sets_level c = None"

fun sets_timeLayout :: "OptionCall \<Rightarrow> string option" where
  "sets_timeLayout (CallWithTimeLayout layout) = Some layout"
| "sets_timeLayout c = None"

fun sets_field :: "string \<Rightarrow> OptionCall \<Rightarrow> string option" where
  "sets_field key (CallWithField k v) = (if k = key then Some v else None)"
| "sets_field key c = None"

fun is_file_call :: "OptionCall \<Rightarrow> bool" where
  "is_file_call (CallWithFileP path) = True"
| "is_file_call (CallWithFileRotationP path) = True"
| "is_file_call c = False"

section \<open>Meta and WrapMeta\<close>

text \<open>
  The struct \<^verbatim>\<open>meta\<close> with its fields \<^verbatim>\<open>key\<close> and \<^verbatim>\<open>value\<close>; \<open>'v\<close> stands for
  \<^verbatim>\<open>interface{}\<close>. A value of the interface \<^verbatim>\<open>Meta\<close> is a pointer to such a struct, or
  nil (\<open>None\<close>), on which calling \<^verbatim>\<open>Key()\<close> panics.
\<close>

record 'v meta =
  meta_key :: string
  meta_value :: 'v

type_synonym 'v Meta = "'v meta option"

definition Key :: "'v meta \<Rightarrow> string" where
  "Key m = meta_key m"

definition Value :: "'v meta \<Rightarrow> 'v" where
  "Value m = meta_value m"

definition NewMeta :: "string \<Rightarrow> 'v \<Rightarrow> 'v Meta" where
  "NewMeta k v = Some \<lparr>meta_key = k, meta_value = v\<rparr>"

text \<open>
  The three zap field constructors that \<^verbatim>\<open>WrapMeta\<close> calls: \<^verbatim>\<open>zap.Error(err)\<close> on a non-nil
  error, \<^verbatim>\<open>zap.Namespace(key)\<close> and \<^verbatim>\<open>zap.Any(key, value)\<close>.
\<close>

datatype 'v Field = zap_Error error | zap_Namespace string | zap_Any string 'v

text \<open>The loop \<^verbatim>\<open>for _, meta := range metas\<close>, appending to the slice.\<close>

fun appendMetas :: "'v Meta list \<Rightarrow> 'v Field list \<Rightarrow> panic + 'v Field list" where
  "appendMetas [] fs = Inr fs"
| "appendMetas (None # ms) fs = Inl NilDereference"
| "appendMetas (Some m # ms) fs = appendMetas ms (fs @ [zap_Any (Key m) (Value m)])"

text \<open>
  \<^verbatim>\<open>WrapMeta\<close>. The slice is made with length 0; its capacity, computed first, does not
  change what \<^verbatim>\<open>append\<close> returns. A nil \<^verbatim>\<open>err\<close> is \<open>None\<close>.
\<close>

definition WrapMeta :: "error option \<Rightarrow> 'v Meta list \<Rightarrow> panic + 'v Field list" where
  "WrapMeta err metas =
     (let fs0 = [];
          fs1 = (case err of Some e \<Rightarrow> fs0 @ [zap_Error e] | None \<Rightarrow> fs0);
          fs2 = fs1 @ [zap_Namespace ''meta'']
      in appendMetas metas fs2)"

section \<open>Package shutdown\<close>

text \<open>
  A \<^verbatim>\<open>syscall.Signal\<close> is an integer. The state the hook works on is the buffer of
  the channel \<^verbatim>\<open>h.ctx\<close>, which \<^verbatim>\<open>make(chan os.Signal, 1)\<close> gives room for one signal, and
  the set of signals that \<^verbatim>\<open>signal.Notify\<close> has registered for that channel; \<open>program\<close>
  is everything else the callbacks can change.
\<close>

type_synonym Signal = nat

definition SIGINT :: Signal where "SIGINT = 2"
definition SIGTERM :: Signal where "SIGTERM = 15"

record 'a runtime =
  ctx_buf :: "Signal list"
  ctx_notify :: "Signal set"
  program :: 'a

text \<open>
  What the operating system and the Go runtime do with a signal is a parameter:
  \<open>catchable s\<close> says whether a program can catch \<open>s\<close> at all (it cannot catch
  \<^verbatim>\<open>SIGKILL\<close> and \<^verbatim>\<open>SIGSTOP\<close>, for which \<^verbatim>\<open>signal.Notify\<close> has no effect), and
  \<open>ends_process s\<close> says whether the default action of \<open>s\<close> ends the process, as it does
  for \<^verbatim>\<open>SIGHUP\<close>, \<^verbatim>\<open>SIGINT\<close>, \<^verbatim>\<open>SIGTERM\<close> and \<^verbatim>\<open>SIGQUIT\<close>. The channel of the hook is
  taken to be the only one the program registers.
\<close>

record sigsys =
  catchable :: "Signal \<Rightarrow> bool"
  ends_process :: "Signal \<Rightarrow> bool"

text \<open>
  \<^verbatim>\<open>signal.Notify(h.ctx, s)\<close> registers \<open>s\<close> for the channel and \<^verbatim>\<open>signal.Stop(h.ctx)\<close>
  undoes all registrations, which restores the default action of the signals. A signal is
  relayed to the channel when it can be caught and is registered.
\<close>

definition signal_Notify :: "Signal \<Rightarrow> 'a runtime \<Rightarrow> 'a runtime" where
  "signal_Notify s rt = rt\<lparr>ctx_notify := insert s (ctx_notify rt)\<rparr>"

definition signal_Stop :: "'a runtime \<Rightarrow> 'a runtime" where
  "signal_Stop rt = rt\<lparr>ctx_notify := {}\<rparr>"

definition relayed :: "sigsys \<Rightarrow> 'a runtime \<Rightarrow> Signal \<Rightarrow> bool" where
  "relayed sys rt s = (catchable sys s \<and> s \<in> ctx_notify rt)"

text \<open>
  The arrival of a signal at the process. A relayed signal is sent to the channel without
  blocking, so it is dropped when the buffer is full, and the process goes on. A signal
  that is not relayed takes its default action: it ends the process, or nothing happens.
\<close>

datatype 'a arrival = Alive "'a runtime" | Ended Signal

definition arrive :: "sigsys \<Rightarrow> Signal \<Rightarrow> 'a runtime \<Rightarrow> 'a arrival" where
  "arrive sys s rt =
     (if relayed sys rt s
      then Alive (if length (ctx_buf rt) < 1 then rt\<lparr>ctx_buf := ctx_buf rt @ [s]\<rparr> else rt)
      else if ends_process sys s then Ended s
      else Alive rt)"

fun arrivals :: "sigsys \<Rightarrow> Signal list \<Rightarrow> 'a runtime \<Rightarrow> 'a arrival" where
  "arrivals sys [] rt = Alive rt"
| "arrivals sys (s # sigs) rt =
     (case arrive sys s rt of
        Ended k \<Rightarrow> Ended k
      | Alive rt1 \<Rightarrow> arrivals sys sigs rt1)"

fun WithSignals :: "Signal list \<Rightarrow> 'a runtime \<Rightarrow> 'a runtime" where
  "WithSignals [] rt = rt"
| "WithSignals (s # signals) rt = WithSignals signals (signal_Notify s rt)"

definition NewHook :: "'a \<Rightarrow> 'a runtime" where
  "NewHook a =
     WithSignals [SIGINT, SIGTERM]
       \<lparr>ctx_buf = [], ctx_notify = {}, program = a\<rparr>"

text \<open>
  The receive \<^verbatim>\<open>select { case <-h.ctx: }\<close>, run against the signals \<open>pending\<close> that
  arrive at the process from then on: it takes the first value of the buffer, and waits
  for the next signal while the buffer is empty. It waits for ever when no signal is left,
  and it never returns when a signal ends the process; otherwise it gets a signal and
  leaves the signals that have not arrived yet.
\<close>

datatype 'a received = Waits | Dies Signal | Gets Signal "'a runtime" "Signal list"

fun receive :: "sigsys \<Rightarrow> 'a runtime \<Rightarrow> Signal list \<Rightarrow> 'a received" where
  "receive sys rt pending =
     (case ctx_buf rt of
        s # rest \<Rightarrow> Gets s (rt\<lparr>ctx_buf := rest\<rparr>) pending
      | [] \<Rightarrow>
          (case pending of
             [] \<Rightarrow> Waits
           | s # later \<Rightarrow>
               (case arrive sys s rt of
                  Ended k \<Rightarrow> Dies k
                | Alive rt1 \<Rightarrow> receive sys rt1 later)))"

text \<open>
  A callback is a Go function without arguments: it changes the state or panics. The loop
  \<^verbatim>\<open>for _, f := range funcs { f() }\<close> calls them one after the other and ends at the
  first panic. Signals go on arriving while it runs: \<open>during\<close> lists, for each callback in
  turn, the signals that arrive from the return of the callback before it (from
  \<^verbatim>\<open>signal.Stop\<close> for the first one) until it returns. They are taken to arrive before the
  callback starts, and one that ends the process ends the loop there.
\<close>

type_synonym 'a callback = "'a runtime \<Rightarrow> panic + 'a runtime"

datatype 'a outcome = Blocked | Killed Signal | Panicked panic | Returned "'a runtime"

fun next_batch :: "Signal list list \<Rightarrow> Signal list" where
  "next_batch [] = []"
| "next_batch (sigs # during) = sigs"

fun runFuncs :: "sigsys \<Rightarrow> 'a callback list \<Rightarrow> Signal list list \<Rightarrow> 'a runtime \<Rightarrow> 'a outcome" where
  "runFuncs sys [] during rt = Returned rt"
| "runFuncs sys (f # funcs) during rt =
     (case arrivals sys (next_batch during) rt of
        Ended k \<Rightarrow> Killed k
      | Alive rt0 \<Rightarrow>
          (case f rt0 of
             Inl p \<Rightarrow> Panicked p
           | Inr rt1 \<Rightarrow> runFuncs sys funcs (tl during) rt1))"

text \<open>
  \<^verbatim>\<open>Close\<close>: the receive, then \<^verbatim>\<open>signal.Stop\<close>, then the loop. The signals of \<open>pending\<close>
  that the receive leaves arrive before \<^verbatim>\<open>signal.Stop\<close> takes effect, those of \<open>during\<close>
  after it. \<open>Blocked\<close>: the receive waits for ever; \<open>Killed k\<close>: the signal \<open>k\<close> has ended
  the process before \<^verbatim>\<open>Close\<close> returned.
\<close>

definition Close ::
  "sigsys \<Rightarrow> 'a callback list \<Rightarrow> 'a runtime \<Rightarrow> Signal list \<Rightarrow> Signal list list \<Rightarrow> 'a outcome" where
  "Close sys funcs rt pending during =
     (case receive sys rt pending of
        Waits \<Rightarrow> Blocked
      | Dies k \<Rightarrow> Killed k
      | Gets s rt1 later \<Rightarrow>
          (case arrivals sys later rt1 of
             Ended k \<Rightarrow> Killed k
           | Alive rt2 \<Rightarrow> runFuncs sys funcs during (signal_Stop rt2)))"

section \<open>Vocabulary of the statements\<close>

text \<open>
  \<open>made_by sys c g\<close>: the function \<open>g\<close> is the option that the constructor call \<open>c\<close>
  returns in some state of the system. \<open>is_file_sink\<close> recognises the two writers that the
  file options store, and \<open>option_update c fw\<close> is the update that the option made by \<open>c\<close>
  performs, where \<open>fw\<close> is the writer of a file option. \<open>encoders\<close> lists the encoder
  configurations of the cores of a tee.
\<close>

definition made_by :: "('w, 'f) os \<Rightarrow> OptionCall \<Rightarrow> ('f option_rec \<Rightarrow> 'f option_rec) \<Rightarrow> bool" where
  "made_by sys c g = (\<exists>wa wb. evalCall sys c wa = Inr (Some g, wb))"

fun is_file_sink :: "'f Writer \<Rightarrow> bool" where
  "is_file_sink (Lock (File f)) = True"
| "is_file_sink (Lumberjack r) = True"
| "is_file_sink w = False"

fun option_update :: "OptionCall \<Rightarrow> 'f Writer \<Rightarrow> 'f option_rec \<Rightarrow> 'f option_rec" where
  "option_update CallWithDebugLevel fw opt = opt\<lparr>level := DebugLevel\<rparr>"
| "option_update CallWithInfoLevel fw opt = opt\<lparr>level := InfoLevel\<rparr>"
| "option_update CallWithWarnLevel fw opt = opt\<lparr>level := WarnLevel\<rparr>"
| "option_update CallWithErrorLevel fw opt = opt\<lparr>level := ErrorLevel\<rparr>"
| "option_update (CallWithField k v) fw opt = opt\<lparr>fields_map := (fields_map opt)(k \<mapsto> v)\<rparr>"
| "option_update (CallWithFileP path) fw opt = opt\<lparr>file_writer := Some fw\<rparr>"
| "option_update (CallWithFileRotationP path) fw opt = opt\<lparr>file_writer := Some fw\<rparr>"
| "option_update (CallWithTimeLayout layout) fw opt = opt\<lparr>timeLayout := layout\<rparr>"
| "option_update CallWithDisableConsole fw opt = opt\<lparr>disableConsole := True\<rparr>"

fun encoders :: "'f Core \<Rightarrow> EncoderConfig list" where
  "encoders NopCore = []"
| "encoders (IOCore enc ws enab) = [enc]"
| "encoders (MultiCore cs) = concat (map encoders cs)"

text \<open>
  A small operating system to run the definitions on: the state is the list of the paths
  made so far, \<^verbatim>\<open>filepath.Dir\<close> cuts a path at its last slash, and the two flags say
  whether making directories and opening files succeed.
\<close>

definition example_os :: "bool \<Rightarrow> bool \<Rightarrow> (string list, string) os" where
  "example_os mkdir_ok open_ok =
     \<lparr>filepath_Dir = (\<lambda>path. rev (tl (dropWhile (\<lambda>c. c \<noteq> CHR ''/'') (rev path)))),
      os_MkdirAll = (\<lambda>dir perm w.
         if mkdir_ok then Inr (dir # w) else Inl ''mkdir: permission denied''),
      os_OpenFile = (\<lambda>path flags perm w.
         if open_ok then Inr (path, path # w) else Inl ''open: permission denied'')\<rparr>"

text \<open>
  The rotation policy of a lumberjack writer is its size cap in megabytes, its number of
  backups, its maximal age in days and its compression flag; \<open>rotationPolicyOf\<close> reads
  the policy that the option returned by a constructor call stores.
\<close>

definition rotation_policy :: "lumberjack_Logger \<Rightarrow> int \<times> int \<times> int \<times> bool" where
  "rotation_policy l = (MaxSize l, MaxBackups l, MaxAge l, Compress l)"

definition rotationPolicyOf :: "panic + ('f Option \<times> 'w) \<Rightarrow> (int \<times> int \<times> int \<times> bool) option" where
  "rotationPolicyOf r =
     (case r of
        Inl p \<Rightarrow> None
      | Inr (f, w) \<Rightarrow>
          (case f of
             None \<Rightarrow> None
           | Some g \<Rightarrow>
               (case file_writer (g newOption) of
                  Some (Lumberjack l) \<Rightarrow> Some (rotation_policy l)
                | _ \<Rightarrow> None)))"

text \<open>
  The policy that the option \<^verbatim>\<open>fileSinkRotate(path, maxSizeMB, maxBackups, maxAgeDays,
  compress)\<close> of the specification asks for: the parameters the caller supplies.
\<close>

definition spec_fileSinkRotate_policy :: "int \<Rightarrow> int \<Rightarrow> int \<Rightarrow> bool \<Rightarrow> int \<times> int \<times> int \<times> bool" where
  "spec_fileSinkRotate_policy maxSizeMB maxBackups maxAgeDays compress =
     (maxSizeMB, maxBackups, maxAgeDays, compress)"

text \<open>
  \<open>chain sys funcs during sts\<close>: the states \<open>sts\<close> are those the callbacks \<open>funcs\<close> run
  through, one after the other: the first state is where the loop starts, each callback
  starts in the state the one before it returned, after the signals that have arrived
  meanwhile, none of which ends the process, and the last state is where the last callback
  returns.
\<close>

fun chain :: "sigsys \<Rightarrow> 'a callback list \<Rightarrow> Signal list list \<Rightarrow> 'a runtime list \<Rightarrow> bool" where
  "chain sys [] during [st] = True"
| "chain sys (f # funcs) during (st # st1 # sts) =
     (case arrivals sys (next_batch during) st of
        Ended k \<Rightarrow> False
      | Alive st0 \<Rightarrow> f st0 = Inr st1 \<and> chain sys funcs (tl during) (st1 # sts))"
| "chain sys funcs during sts = False"

text \<open>
  A callback to run the definitions on: it appends its name to the program's log, together
  with whether the relay of signals to the channel is stopped when it runs. And a system of
  signals to run them on: \<^verbatim>\<open>SIGKILL\<close> (9) and \<^verbatim>\<open>SIGSTOP\<close> (19) cannot be caught, and the
  default action of \<^verbatim>\<open>SIGHUP\<close> (1), \<^verbatim>\<open>SIGINT\<close> (2), \<^verbatim>\<open>SIGQUIT\<close> (3), \<^verbatim>\<open>SIGKILL\<close> (9)
  and \<^verbatim>\<open>SIGTERM\<close> (15) ends the process, while \<^verbatim>\<open>SIGCHLD\<close> (17) does nothing.
\<close>

definition example_callback :: "string \<Rightarrow> (string \<times> bool) list callback" where
  "example_callback name rt = Inr (rt\<lparr>program := program rt @ [(name, ctx_notify rt = {})]\<rparr>)"

definition example_sigsys :: sigsys where
  "example_sigsys =
     \<lparr>catchable = (\<lambda>s. s \<noteq> 9 \<and> s \<noteq> 19),
      ends_process = (\<lambda>s. s = 1 \<or> s = 2 \<or> s = 3 \<or> s = 9 \<or> s = 15)\<rparr>"

section \<open>Lemmas on the logger\<close>

lemmas level_defs = DebugLevel_def InfoLevel_def WarnLevel_def ErrorLevel_def DPanicLevel_def
  PanicLevel_def FatalLevel_def DefaultLevel_def

lemma delivered_assemble:
  "delivered (core (fst (assemble opt))) S =
     (if disableConsole opt then []
      else (if level opt \<le>s S \<and> S <s ErrorLevel then [Lock Stdout] else []) @
           (if level opt \<le>s S \<and> ErrorLevel \<le>s S then [Lock Stderr] else [])) @
     (case file_writer opt of
        Some fw \<Rightarrow> if level opt \<le>s S then [fw] else []
      | None \<Rightarrow> [])"
  by (simp add: assemble_def Let_def NewCore_def AddSync_def NewJSONEncoder_def split: option.splits)

lemma sinks_assemble:
  "sinks (core (fst (assemble opt))) =
     (if disableConsole opt then [] else [Lock Stdout, Lock Stderr]) @
     (case file_writer opt of Some fw \<Rightarrow> [fw] | None \<Rightarrow> [])"
  by (simp add: assemble_def Let_def NewCore_def AddSync_def NewJSONEncoder_def split: option.splits)

lemma snd_assemble: "snd (assemble opt) = None"
  by (simp add: assemble_def Let_def)

lemma applyOptions_map_Some:
  "applyOptions (map Some gs) opt = Inr (fold (\<lambda>g x. g x) gs opt)"
  by (induction gs arbitrary: opt) simp_all

lemma evalCall_Some:
  "evalCall sys c w = Inr (f, w1) \<Longrightarrow> \<exists>g. f = Some g"
  by (cases c)
     (auto simp: WithDebugLevel_def WithInfoLevel_def WithWarnLevel_def WithErrorLevel_def
        WithField_def WithFileP_def WithFileRotationP_def WithTimeLayout_def
        WithDisableConsole_def Let_def split: sum.splits prod.splits)

lemma evalCalls_made_by:
  "evalCalls sys cs w = Inr (opts, w1) \<Longrightarrow>
     \<exists>gs. opts = map Some gs \<and> list_all2 (made_by sys) cs gs"
proof (induction cs arbitrary: w opts)
  case Nil
  then show ?case by simp
next
  case (Cons c cs)
  from Cons.prems obtain f wa fs where
    c: "evalCall sys c w = Inr (f, wa)" and
    cs: "evalCalls sys cs wa = Inr (fs, w1)" and
    opts: "opts = f # fs"
    by (auto split: sum.splits prod.splits)
  from evalCall_Some [OF c] obtain g where g: "f = Some g" by blast
  from Cons.IH [OF cs] obtain gs where gs: "fs = map Some gs" "list_all2 (made_by sys) cs gs"
    by blast
  have "made_by sys c g" using c g by (auto simp: made_by_def)
  with gs opts g show ?case by (intro exI [of _ "g # gs"]) simp
qed

lemma WithFileP_Inr:
  assumes "WithFileP sys path w = Inr (f, w1)"
  shows "\<exists>h. f = Some (\<lambda>opt. opt\<lparr>file_writer := Some (Lock (File h))\<rparr>)"
proof (cases "os_MkdirAll sys (filepath_Dir sys path) perm_0766 w")
  case (Inl e)
  with assms show ?thesis by (simp add: WithFileP_def)
next
  case (Inr wa)
  show ?thesis
  proof (cases "os_OpenFile sys path [O_CREATE, O_APPEND, O_RDWR] perm_0766 wa")
    case (Inl e)
    with Inr assms show ?thesis by (simp add: WithFileP_def)
  next
    case (Inr r)
    with \<open>os_MkdirAll sys (filepath_Dir sys path) perm_0766 w = Inr wa\<close> assms
    show ?thesis by (cases r) (auto simp: WithFileP_def)
  qed
qed

lemma WithFileRotationP_Inr:
  assumes "WithFileRotationP sys path w = Inr (f, w1)"
  shows "f = Some (\<lambda>opt. opt\<lparr>file_writer := Some (Lumberjack
            \<lparr>Filename = path, MaxSize = 128, MaxBackups = 300, MaxAge = 30,
             LocalTime = True, Compress = True\<rparr>)\<rparr>)"
proof (cases "os_MkdirAll sys (filepath_Dir sys path) perm_0766 w")
  case (Inl e)
  with assms show ?thesis by (simp add: WithFileRotationP_def)
next
  case (Inr wa)
  with assms show ?thesis by (auto simp: WithFileRotationP_def)
qed

lemma made_by_option_update:
  assumes "made_by sys c g"
  shows "\<exists>fw. is_file_sink fw \<and> g = option_update c fw"
proof -
  from assms obtain wa wb where e: "evalCall sys c wa = Inr (Some g, wb)"
    by (auto simp: made_by_def)
  show ?thesis
  proof (cases c)
    case (CallWithFileP path)
    with e WithFileP_Inr [of sys path wa "Some g" wb] obtain h where
      "g = (\<lambda>opt. opt\<lparr>file_writer := Some (Lock (File h))\<rparr>)" by auto
    with CallWithFileP show ?thesis
      by (intro exI [of _ "Lock (File h)"]) (simp add: fun_eq_iff)
  next
    case (CallWithFileRotationP path)
    with e WithFileRotationP_Inr [of sys path wa "Some g" wb] show ?thesis
      by (intro exI [of _ "Lumberjack \<lparr>Filename = path, MaxSize = 128, MaxBackups = 300,
            MaxAge = 30, LocalTime = True, Compress = True\<rparr>"]) (simp add: fun_eq_iff)
  qed (use e in \<open>auto simp: fun_eq_iff WithDebugLevel_def WithInfoLevel_def WithWarnLevel_def
         WithErrorLevel_def WithField_def WithTimeLayout_def WithDisableConsole_def
         intro!: exI [of _ "Lumberjack \<lparr>Filename = [], MaxSize = 0, MaxBackups = 0,
            MaxAge = 0, LocalTime = False, Compress = False\<rparr>"]\<close>)
qed

lemma made_by_level:
  "made_by sys c g \<Longrightarrow> level (g opt) = (case sets_level c of Some l \<Rightarrow> l | None \<Rightarrow> level opt)"
  by (drule made_by_option_update, cases c) auto

lemma made_by_timeLayout:
  "made_by sys c g \<Longrightarrow>
     timeLayout (g opt) = (case sets_timeLayout c of Some t \<Rightarrow> t | None \<Rightarrow> timeLayout opt)"
  by (drule made_by_option_update, cases c) auto

lemma made_by_fields:
  "made_by sys c g \<Longrightarrow>
     fields_map (g opt) k = (case sets_field k c of Some v \<Rightarrow> Some v | None \<Rightarrow> fields_map opt k)"
  by (drule made_by_option_update, cases c) auto

lemma made_by_disableConsole:
  "made_by sys c g \<Longrightarrow>
     disableConsole (g opt) = (disableConsole opt \<or> c = CallWithDisableConsole)"
  by (drule made_by_option_update, cases c) auto

lemma made_by_file_writer:
  "made_by sys c g \<Longrightarrow>
     (if is_file_call c then \<exists>fw. file_writer (g opt) = Some fw \<and> is_file_sink fw
      else file_writer (g opt) = file_writer opt)"
  by (drule made_by_option_update, cases c) auto

lemma fold_last_setting:
  assumes "list_all2 R cs gs"
    and "\<And>c g x. R c g \<Longrightarrow> p (g x) = (case st c of Some y \<Rightarrow> h y | None \<Rightarrow> p x)"
  shows "p (fold (\<lambda>g x. g x) gs x) = (case last_setting st cs of Some y \<Rightarrow> h y | None \<Rightarrow> p x)"
  using assms(1)
proof (induction arbitrary: x rule: list_all2_induct)
  case Nil
  then show ?case by simp
next
  case (Cons c cs g gs)
  show ?case
    using Cons.IH [of "g x"] assms(2) [OF Cons.hyps(1), of x]
    by (simp split: option.splits)
qed

lemma last_setting_None:
  "(\<forall>x\<in>set xs. st x = None) \<Longrightarrow> last_setting st xs = None"
  by (induction xs) simp_all

lemma evalCalls_applyOptions:
  assumes "evalCalls sys cs w = Inr (opts, w1)"
  obtains gs where "opts = map Some gs" and "list_all2 (made_by sys) cs gs"
    and "applyOptions opts opt = Inr (fold (\<lambda>g x. g x) gs opt)"
  using evalCalls_made_by [OF assms] applyOptions_map_Some by blast

lemma fold_file_writer:
  assumes "list_all2 (made_by sys) cs gs"
  shows "if list_ex is_file_call cs
         then \<exists>fw. file_writer (fold (\<lambda>g x. g x) gs opt) = Some fw \<and> is_file_sink fw
         else file_writer (fold (\<lambda>g x. g x) gs opt) = file_writer opt"
  using assms
proof (induction arbitrary: opt rule: list_all2_induct)
  case Nil
  then show ?case by simp
next
  case (Cons c cs g gs)
  show ?case
    using Cons.IH [of "g opt"] made_by_file_writer [OF Cons.hyps(1), of opt]
    by (auto split: if_splits)
qed

lemma fold_disableConsole:
  assumes "list_all2 (made_by sys) cs gs"
  shows "disableConsole (fold (\<lambda>g x. g x) gs opt) =
           (disableConsole opt \<or> CallWithDisableConsole \<in> set cs)"
  using assms
proof (induction arbitrary: opt rule: list_all2_induct)
  case Nil
  then show ?case by simp
next
  case (Cons c cs g gs)
  show ?case
    using Cons.IH [of "g opt"] made_by_disableConsole [OF Cons.hyps(1), of opt]
    by auto
qed

lemma built_file_sink:
  assumes "evalCalls sys cs w = Inr (opts, w1)"
    and "applyOptions opts newOption = Inr opt"
    and "file_writer opt = Some fw"
  shows "is_file_sink fw"
proof -
  from assms(1) obtain gs where gs: "list_all2 (made_by sys) cs gs"
    and ap: "applyOptions opts newOption = Inr (fold (\<lambda>g x. g x) gs newOption)"
    by (rule evalCalls_applyOptions)
  from ap assms(2) have opt: "opt = fold (\<lambda>g x. g x) gs newOption" by simp
  from fold_file_writer [OF gs, of newOption] assms(3) opt show ?thesis
    by (auto simp: newOption_def split: if_splits)
qed

lemma encoders_assemble:
  "\<forall>enc\<in>set (encoders (core (fst (assemble opt)))).
     EncodeTimeLayout enc = (if timeLayout opt \<noteq> [] then timeLayout opt else DefaultTimeLayout)"
  by (simp add: assemble_def Let_def NewCore_def AddSync_def NewJSONEncoder_def split: option.splits)

lemma staticFields_assemble: "staticFields (fst (assemble opt)) = fields_map opt"
  by (simp add: assemble_def Let_def)

lemma fold_level:
  assumes "list_all2 (made_by sys) cs gs"
  shows "level (fold (\<lambda>g x. g x) gs opt) =
           (case last_setting sets_level cs of Some l \<Rightarrow> l | None \<Rightarrow> level opt)"
  by (rule fold_last_setting [OF assms, where p = level and h = "\<lambda>l. l"]) (rule made_by_level)

lemma fold_timeLayout:
  assumes "list_all2 (made_by sys) cs gs"
  shows "timeLayout (fold (\<lambda>g x. g x) gs opt) =
           (case last_setting sets_timeLayout cs of Some t \<Rightarrow> t | None \<Rightarrow> timeLayout opt)"
  by (rule fold_last_setting [OF assms, where p = timeLayout and h = "\<lambda>l. l"])
     (rule made_by_timeLayout)

lemma fold_fields:
  assumes "list_all2 (made_by sys) cs gs"
  shows "fields_map (fold (\<lambda>g x. g x) gs opt) k =
           (case last_setting (sets_field k) cs of Some v \<Rightarrow> Some v | None \<Rightarrow> fields_map opt k)"
  by (rule fold_last_setting [OF assms, where p = "\<lambda>x. fields_map x k" and h = Some])
     (rule made_by_fields)

lemma evalCalls_no_file:
  "\<forall>c\<in>set cs. \<not> is_file_call c \<Longrightarrow> \<exists>opts. evalCalls sys cs w = Inr (opts, w)"
proof (induction cs)
  case Nil
  then show ?case by simp
next
  case (Cons c cs)
  then obtain opts where "evalCalls sys cs w = Inr (opts, w)" by auto
  moreover from Cons.prems have "\<exists>f. evalCall sys c w = Inr (f, w)" by (cases c) auto
  ultimately show ?case by auto
qed

lemma NewJSONLogger_of_calls:
  assumes "evalCalls sys cs w = Inr (opts, w1)"
  obtains gs where "list_all2 (made_by sys) cs gs"
    and "applyOptions opts newOption = Inr (fold (\<lambda>g x. g x) gs newOption)"
    and "NewJSONLogger opts = Inr (fst (assemble (fold (\<lambda>g x. g x) gs newOption)), None)"
proof -
  from assms obtain gs where gs: "list_all2 (made_by sys) cs gs"
    and ap: "applyOptions opts newOption = Inr (fold (\<lambda>g x. g x) gs newOption)"
    by (rule evalCalls_applyOptions)
  have "NewJSONLogger opts = Inr (fst (assemble (fold (\<lambda>g x. g x) gs newOption)), None)"
    using ap snd_assemble [of "fold (\<lambda>g x. g x) gs newOption"]
    by (simp add: NewJSONLogger_def prod_eq_iff)
  with gs ap show ?thesis by (rule that)
qed

lemma assemble_err: "assemble opt = (lg, err) \<Longrightarrow> err = None"
  using snd_assemble [of opt] by simp

lemma NewJSONLogger_err:
  assumes "NewJSONLogger opts = Inr (lg, err)"
  shows "err = None"
proof (cases "applyOptions opts newOption")
  case (Inl p)
  with assms show ?thesis by (simp add: NewJSONLogger_def)
next
  case (Inr opt)
  with assms have "assemble opt = (lg, err)" by (simp add: NewJSONLogger_def)
  then show ?thesis by (rule assemble_err)
qed

lemma evalCalls_append:
  "evalCalls sys (xs @ ys) w =
     (case evalCalls sys xs w of
        Inl p \<Rightarrow> Inl p
      | Inr (fs, w0) \<Rightarrow>
          (case evalCalls sys ys w0 of
             Inl p \<Rightarrow> Inl p
           | Inr (gs, w1) \<Rightarrow> Inr (fs @ gs, w1)))"
  by (induction xs arbitrary: w) (auto split: sum.splits prod.splits)

lemma call_panics_at:
  assumes "evalCalls sys pre w = Inr (fs, w0)" and "evalCall sys c w0 = Inl p"
  shows "callNewJSONLogger sys (pre @ c # post) w = Inl p"
  using assms by (simp add: callNewJSONLogger_def evalCalls_append)

lemma appendMetas_Some:
  "appendMetas (map Some ms) fs = Inr (fs @ map (\<lambda>m. zap_Any (Key m) (Value m)) ms)"
  by (induction ms arbitrary: fs) simp_all

section \<open>Lemmas on the shutdown hook\<close>

declare receive.simps [simp del]

lemma receive_buffered:
  "ctx_buf rt = s # rest \<Longrightarrow> receive sys rt pending = Gets s (rt\<lparr>ctx_buf := rest\<rparr>) pending"
  by (subst receive.simps) simp

lemma receive_none_pending:
  "ctx_buf rt = [] \<Longrightarrow> receive sys rt [] = Waits"
  by (subst receive.simps) simp

lemma receive_wait:
  "ctx_buf rt = [] \<Longrightarrow>
     receive sys rt (s # later) =
       (case arrive sys s rt of Ended k \<Rightarrow> Dies k | Alive rt1 \<Rightarrow> receive sys rt1 later)"
  by (subst receive.simps) simp

lemma arrive_relayed:
  "relayed sys rt s \<Longrightarrow> ctx_buf rt = [] \<Longrightarrow> arrive sys s rt = Alive (rt\<lparr>ctx_buf := [s]\<rparr>)"
  by (simp add: arrive_def)

lemma arrive_ends:
  "\<not> relayed sys rt s \<Longrightarrow> ends_process sys s \<Longrightarrow> arrive sys s rt = Ended s"
  by (simp add: arrive_def)

lemma arrive_nothing:
  "\<not> relayed sys rt s \<Longrightarrow> \<not> ends_process sys s \<Longrightarrow> arrive sys s rt = Alive rt"
  by (simp add: arrive_def)

lemma arrive_survives:
  assumes "relayed sys rt s \<or> \<not> ends_process sys s"
  shows "\<exists>rt1. arrive sys s rt = Alive rt1 \<and> ctx_notify rt1 = ctx_notify rt
           \<and> program rt1 = program rt"
  using assms by (auto simp: arrive_def)

lemma relayed_cong:
  "ctx_notify rt1 = ctx_notify rt \<Longrightarrow> relayed sys rt1 s = relayed sys rt s"
  by (simp add: relayed_def)

lemma arrivals_survive:
  assumes "\<forall>s\<in>set sigs. relayed sys rt s \<or> \<not> ends_process sys s"
  shows "\<exists>rt1. arrivals sys sigs rt = Alive rt1 \<and> ctx_notify rt1 = ctx_notify rt
           \<and> program rt1 = program rt"
  using assms
proof (induction sigs arbitrary: rt)
  case Nil
  then show ?case by simp
next
  case (Cons s sigs)
  from Cons.prems have "relayed sys rt s \<or> \<not> ends_process sys s" by simp
  from arrive_survives [OF this] obtain rt1 where
    a: "arrive sys s rt = Alive rt1" and n: "ctx_notify rt1 = ctx_notify rt"
    and p: "program rt1 = program rt"
    by blast
  have "\<forall>x\<in>set sigs. relayed sys rt1 x \<or> \<not> ends_process sys x"
    using Cons.prems relayed_cong [OF n] by simp
  from Cons.IH [OF this] obtain rt2 where
    "arrivals sys sigs rt1 = Alive rt2" "ctx_notify rt2 = ctx_notify rt1"
    "program rt2 = program rt1"
    by blast
  with a n p show ?case by simp
qed

lemma arrivals_harmless:
  assumes "\<forall>s\<in>set sigs. \<not> ends_process sys s"
  shows "\<exists>rt1. arrivals sys sigs rt = Alive rt1"
  using arrivals_survive [of sigs sys rt] assms by blast

lemma receive_empty:
  assumes "ctx_buf rt = []"
  shows "receive sys rt pending =
     (case dropWhile (\<lambda>s. \<not> relayed sys rt s \<and> \<not> ends_process sys s) pending of
        [] \<Rightarrow> Waits
      | s # later \<Rightarrow> if relayed sys rt s then Gets s rt later else Dies s)"
  using assms
proof (induction pending)
  case Nil
  then show ?case by (simp add: receive_none_pending)
next
  case (Cons s pending)
  show ?case
  proof (cases "relayed sys rt s")
    case True
    from True Cons.prems have a: "arrive sys s rt = Alive (rt\<lparr>ctx_buf := [s]\<rparr>)"
      by (rule arrive_relayed)
    have "receive sys (rt\<lparr>ctx_buf := [s]\<rparr>) pending = Gets s (rt\<lparr>ctx_buf := []\<rparr>) pending"
      using receive_buffered [of "rt\<lparr>ctx_buf := [s]\<rparr>" s "[]" sys pending] by simp
    moreover have "rt\<lparr>ctx_buf := []\<rparr> = rt" using Cons.prems by simp
    ultimately have "receive sys (rt\<lparr>ctx_buf := [s]\<rparr>) pending = Gets s rt pending"
      by simp
    with a True Cons.prems show ?thesis by (simp add: receive_wait)
  next
    case False
    show ?thesis
    proof (cases "ends_process sys s")
      case True
      with False Cons.prems show ?thesis by (simp add: receive_wait arrive_ends)
    next
      case e: False
      with False Cons show ?thesis by (simp add: receive_wait arrive_nothing)
    qed
  qed
qed

lemma receive_Gets_later:
  assumes "receive sys rt pending = Gets s rt1 later"
  shows "ctx_notify rt1 = ctx_notify rt \<and> set later \<subseteq> set pending"
proof (cases "ctx_buf rt")
  case Nil
  let ?P = "\<lambda>s. \<not> relayed sys rt s \<and> \<not> ends_process sys s"
  from assms Nil have d: "dropWhile ?P pending = s # later" and r: "rt1 = rt"
    by (auto simp: receive_empty split: list.splits if_splits)
  have "set (dropWhile ?P pending) \<subseteq> set pending"
    by (simp add: set_dropWhileD subsetI)
  with d r show ?thesis by simp
next
  case (Cons s0 rest)
  with assms show ?thesis by (auto simp: receive_buffered)
qed

lemma chain_Nil: "chain sys [] during (rt # sts) = (sts = [])"
  by (cases sts) simp_all

lemma chain_Cons:
  "chain sys (f # funcs) during (rt # sts) =
     (\<exists>rt0 rt1 sts1. sts = rt1 # sts1 \<and> arrivals sys (next_batch during) rt = Alive rt0
        \<and> f rt0 = Inr rt1 \<and> chain sys funcs (tl during) (rt1 # sts1))"
  by (cases sts; cases "arrivals sys (next_batch during) rt") simp_all

lemma runFuncs_chain:
  "(runFuncs sys funcs during rt = Returned rt') =
     (\<exists>sts. chain sys funcs during (rt # sts) \<and> last (rt # sts) = rt')"
proof (induction funcs arbitrary: rt during)
  case Nil
  show ?case by (simp add: chain_Nil)
next
  case (Cons f funcs)
  show ?case
  proof (cases "arrivals sys (next_batch during) rt")
    case (Ended k)
    then show ?thesis by (simp add: chain_Cons)
  next
    case (Alive rt0)
    show ?thesis
    proof (cases "f rt0")
      case (Inl p)
      with Alive show ?thesis by (simp add: chain_Cons)
    next
      case (Inr rt1)
      have "(runFuncs sys (f # funcs) during rt = Returned rt') =
          (runFuncs sys funcs (tl during) rt1 = Returned rt')"
        using Alive Inr by simp
      also have "\<dots> = (\<exists>sts. chain sys funcs (tl during) (rt1 # sts) \<and> last (rt1 # sts) = rt')"
        by (rule Cons.IH)
      also have "\<dots> = (\<exists>sts. chain sys (f # funcs) during (rt # sts) \<and> last (rt # sts) = rt')"
      proof
        assume "\<exists>sts. chain sys funcs (tl during) (rt1 # sts) \<and> last (rt1 # sts) = rt'"
        then obtain sts where "chain sys funcs (tl during) (rt1 # sts)" "last (rt1 # sts) = rt'"
          by blast
        with Alive Inr have
          "chain sys (f # funcs) during (rt # rt1 # sts) \<and> last (rt # rt1 # sts) = rt'"
          by simp
        then show "\<exists>sts. chain sys (f # funcs) during (rt # sts) \<and> last (rt # sts) = rt'"
          by (rule exI [of _ "rt1 # sts"])
      next
        assume "\<exists>sts. chain sys (f # funcs) during (rt # sts) \<and> last (rt # sts) = rt'"
        then obtain sts where c: "chain sys (f # funcs) during (rt # sts)"
          and l: "last (rt # sts) = rt'"
          by blast
        from c obtain st0 st1 sts1 where sts: "sts = st1 # sts1"
          and a: "arrivals sys (next_batch during) rt = Alive st0"
          and f: "f st0 = Inr st1"
          and c1: "chain sys funcs (tl during) (st1 # sts1)"
          unfolding chain_Cons by blast
        from a Alive have "st0 = rt0" by simp
        with f Inr have "st1 = rt1" by simp
        with c1 l sts have "chain sys funcs (tl during) (rt1 # sts1) \<and> last (rt1 # sts1) = rt'"
          by simp
        then show "\<exists>sts. chain sys funcs (tl during) (rt1 # sts) \<and> last (rt1 # sts) = rt'"
          by (rule exI [of _ sts1])
      qed
      finally show ?thesis .
    qed
  qed
qed

lemma chain_length: "chain sys funcs during sts \<Longrightarrow> length sts = Suc (length funcs)"
  by (induction sys funcs during sts rule: chain.induct) (simp_all split: arrival.splits)

lemma chain_nth:
  "chain sys funcs during sts \<Longrightarrow> i < length funcs \<Longrightarrow>
     \<exists>st0. arrivals sys (next_batch (drop i during)) (sts ! i) = Alive st0
          \<and> (funcs ! i) st0 = Inr (sts ! Suc i)"
proof (induction sys funcs during sts arbitrary: i rule: chain.induct)
  case (2 sys f funcs during st st1 sts)
  from "2.prems"(1) obtain st0 where a: "arrivals sys (next_batch during) st = Alive st0"
    and f: "f st0 = Inr st1" and c: "chain sys funcs (tl during) (st1 # sts)"
    by (auto split: arrival.splits)
  show ?case
  proof (cases i)
    case 0
    with a f show ?thesis by simp
  next
    case (Suc j)
    with "2.prems"(2) have j: "j < length funcs" by simp
    from "2.IH" [OF a c j] show ?thesis
      using Suc by (simp add: drop_Suc)
  qed
qed simp_all

lemma next_batch_harmless:
  "\<forall>sigs\<in>set during. \<forall>s\<in>set sigs. \<not> ends_process sys s \<Longrightarrow>
     \<forall>s\<in>set (next_batch during). \<not> ends_process sys s"
  by (cases during) simp_all

lemma tl_harmless:
  "\<forall>sigs\<in>set during. \<forall>s\<in>set sigs. \<not> ends_process sys s \<Longrightarrow>
     \<forall>sigs\<in>set (tl during). \<forall>s\<in>set sigs. \<not> ends_process sys s"
  by (cases during) simp_all

lemma runFuncs_not_killed:
  assumes "\<forall>sigs\<in>set during. \<forall>s\<in>set sigs. \<not> ends_process sys s"
  shows "runFuncs sys funcs during rt \<noteq> Killed k"
  using assms
proof (induction funcs arbitrary: rt during)
  case Nil
  show ?case by simp
next
  case (Cons f funcs)
  from arrivals_harmless [OF next_batch_harmless [OF Cons.prems], of rt]
  obtain rt0 where a: "arrivals sys (next_batch during) rt = Alive rt0" by blast
  show ?case
  proof (cases "f rt0")
    case (Inl p)
    with a show ?thesis by simp
  next
    case (Inr rt1)
    with a Cons.IH [OF tl_harmless [OF Cons.prems], of rt1] show ?thesis by simp
  qed
qed

lemma runFuncs_not_blocked: "runFuncs sys funcs during rt \<noteq> Blocked"
  by (induction funcs arbitrary: rt during) (simp_all split: arrival.splits sum.splits)

lemma Close_blocked:
  "(Close sys funcs rt pending during = Blocked) = (receive sys rt pending = Waits)"
  by (simp add: Close_def runFuncs_not_blocked split: received.splits arrival.splits)

lemma receive_empty_alive:
  assumes "ctx_buf rt = []"
    and "\<forall>s\<in>set pending. relayed sys rt s \<or> \<not> ends_process sys s"
  shows "receive sys rt pending =
     (case dropWhile (\<lambda>s. \<not> relayed sys rt s) pending of
        [] \<Rightarrow> Waits
      | s # later \<Rightarrow> Gets s rt later)"
proof -
  let ?P = "\<lambda>s. \<not> relayed sys rt s \<and> \<not> ends_process sys s"
  let ?Q = "\<lambda>s. \<not> relayed sys rt s"
  have eq: "dropWhile ?P pending = dropWhile ?Q pending"
    using assms(2) by (intro dropWhile_cong) auto
  have g: "(case xs of [] \<Rightarrow> Waits
            | s # later \<Rightarrow> if relayed sys rt s then Gets s rt later else Dies s) =
           (case xs of [] \<Rightarrow> Waits | s # later \<Rightarrow> Gets s rt later)"
    if "xs = [] \<or> relayed sys rt (hd xs)" for xs
    using that by (cases xs) simp_all
  have h: "dropWhile ?Q pending = [] \<or> relayed sys rt (hd (dropWhile ?Q pending))"
    using hd_dropWhile [of ?Q pending] by blast
  show ?thesis
    unfolding receive_empty [OF assms(1)] eq by (rule g [OF h])
qed

lemma case_Waits:
  "((case xs of [] \<Rightarrow> Waits | s # later \<Rightarrow> Gets s rt later) = Waits) = (xs = [])"
  by (cases xs) simp_all

lemma case_not_Dies:
  "(case xs of [] \<Rightarrow> Waits | s # later \<Rightarrow> Gets s rt later) \<noteq> Dies k"
  by (cases xs) simp_all

lemma receive_not_Dies:
  assumes "\<forall>s\<in>set pending. relayed sys rt s \<or> \<not> ends_process sys s"
  shows "receive sys rt pending \<noteq> Dies k"
proof (cases "ctx_buf rt")
  case Nil
  show ?thesis
    unfolding receive_empty_alive [OF Nil assms] by (rule case_not_Dies)
next
  case (Cons s0 rest)
  then show ?thesis by (simp add: receive_buffered)
qed

lemma arrivals_after_receive:
  assumes "\<forall>s\<in>set pending. relayed sys rt s \<or> \<not> ends_process sys s"
    and "receive sys rt pending = Gets s rt1 later"
  shows "\<exists>rt2. arrivals sys later rt1 = Alive rt2"
proof -
  from receive_Gets_later [OF assms(2)] have n: "ctx_notify rt1 = ctx_notify rt"
    and l: "set later \<subseteq> set pending"
    by simp_all
  have "\<forall>x\<in>set later. relayed sys rt1 x \<or> \<not> ends_process sys x"
    using assms(1) l relayed_cong [OF n] by auto
  from arrivals_survive [OF this] show ?thesis by blast
qed

section \<open>Routing of records to the sinks\<close>

text \<open>
  Claim C1. Take a logger built by \<^verbatim>\<open>NewJSONLogger\<close> from options made by the package's
  constructors, with console output enabled and severity floor \<open>level opt\<close>. A record of
  severity \<open>S\<close> is delivered to the stdout sink exactly when \<open>S\<close> is at or above the
  floor and below \<open>ErrorLevel\<close>, to the stderr sink exactly when \<open>S\<close> is at or above the
  floor and at or above \<open>ErrorLevel\<close>, and, when a file option was given, to the file sink
  exactly when \<open>S\<close> is at or above the floor, with no upper bound.
\<close>

theorem routing_bands:
  assumes "evalCalls sys cs w = Inr (opts, w1)"
    and "applyOptions opts newOption = Inr opt"
    and "NewJSONLogger opts = Inr (lg, err)"
    and "\<not> disableConsole opt"
  shows "(Lock Stdout \<in> set (delivered (core lg) S)) = (level opt \<le>s S \<and> S <s ErrorLevel)
       \<and> (Lock Stderr \<in> set (delivered (core lg) S)) = (level opt \<le>s S \<and> ErrorLevel \<le>s S)
       \<and> (\<forall>fw. file_writer opt = Some fw \<longrightarrow>
             (fw \<in> set (delivered (core lg) S)) = (level opt \<le>s S))"
proof -
  from assms(2,3) have lg: "lg = fst (assemble opt)"
    by (simp add: NewJSONLogger_def)
  have out: "file_writer opt \<noteq> Some (Lock Stdout)"
    using built_file_sink [OF assms(1,2), of "Lock Stdout"] by auto
  have err: "file_writer opt \<noteq> Some (Lock Stderr)"
    using built_file_sink [OF assms(1,2), of "Lock Stderr"] by auto
  show ?thesis
    using assms(4) out err unfolding lg delivered_assemble
    by (auto split: option.splits)
qed

theorem routing_bands_witness:
  "evalCalls (example_os True True) [CallWithWarnLevel, CallWithFileP ''/var/log/app.log''] [] =
     Inr ([WithWarnLevel,
           Some (\<lambda>opt. opt\<lparr>file_writer := Some (Lock (File ''/var/log/app.log''))\<rparr>)],
          [''/var/log/app.log'', ''/var/log''])
   \<and> (case NewJSONLogger [WithWarnLevel,
              Some (\<lambda>opt. opt\<lparr>file_writer := Some (Lock (File ''/var/log/app.log''))\<rparr>)] of
         Inl p \<Rightarrow> False
       | Inr (lg, err) \<Rightarrow>
           delivered (core lg) InfoLevel = []
         \<and> delivered (core lg) WarnLevel = [Lock Stdout, Lock (File ''/var/log/app.log'')]
         \<and> delivered (core lg) ErrorLevel = [Lock Stderr, Lock (File ''/var/log/app.log'')])"
proof -
  let ?f = "Some (\<lambda>opt. opt\<lparr>file_writer := Some (Lock (File ''/var/log/app.log''))\<rparr>)"
  let ?opt = "\<lparr>level = WarnLevel, fields_map = Map.empty,
     file_writer = Some (Lock (File ''/var/log/app.log'')), timeLayout = [],
     disableConsole = False\<rparr>"
  have h1: "evalCalls (example_os True True)
      [CallWithWarnLevel, CallWithFileP ''/var/log/app.log''] [] =
        Inr ([WithWarnLevel, ?f], [''/var/log/app.log'', ''/var/log''])"
    by (simp add: example_os_def WithFileP_def)
  have h2: "applyOptions [WithWarnLevel, ?f] newOption = Inr ?opt"
    by (simp add: WithWarnLevel_def newOption_def)
  have h3: "NewJSONLogger [WithWarnLevel, ?f] = Inr (fst (assemble ?opt), snd (assemble ?opt))"
    using h2 by (simp add: NewJSONLogger_def)
  have h4: "\<not> disableConsole ?opt" by simp
  show ?thesis
    using h1 h3 routing_bands [OF h1 h2 h3 h4, of ErrorLevel]
    by (simp add: delivered_assemble case_prod_beta level_defs word_sle_eq word_sless_alt)
qed

section \<open>The options are applied in order\<close>

text \<open>
  Claim C7. \<^verbatim>\<open>NewJSONLogger\<close> applies its options from left to right, starting from the
  defaults: the severity floor and the time layout of the resulting struct are those of
  the last option that sets them, and the field map holds, for every key, the value of the
  last \<^verbatim>\<open>WithField\<close> with that key, so that the entries of all the options accumulate
  and the last writer wins on a key. The logger carries exactly these fields, and its
  encoders format times with that layout, an empty layout standing for the default one.
\<close>

theorem options_left_to_right:
  assumes "evalCalls sys cs w = Inr (opts, w1)"
  shows "\<exists>opt lg. applyOptions opts newOption = Inr opt
       \<and> NewJSONLogger opts = Inr (lg, None)
       \<and> level opt = (case last_setting sets_level cs of Some l \<Rightarrow> l | None \<Rightarrow> DefaultLevel)
       \<and> timeLayout opt = (case last_setting sets_timeLayout cs of Some t \<Rightarrow> t | None \<Rightarrow> [])
       \<and> (\<forall>k. fields_map opt k = last_setting (sets_field k) cs)
       \<and> staticFields lg = fields_map opt
       \<and> (\<forall>enc\<in>set (encoders (core lg)). EncodeTimeLayout enc =
            (if timeLayout opt \<noteq> [] then timeLayout opt else DefaultTimeLayout))"
proof -
  from assms obtain gs where gs: "list_all2 (made_by sys) cs gs"
    and ap: "applyOptions opts newOption = Inr (fold (\<lambda>g x. g x) gs newOption)"
    by (rule evalCalls_applyOptions)
  let ?opt = "fold (\<lambda>g x. g x) gs newOption"
  have l: "level ?opt =
      (case last_setting sets_level cs of Some l \<Rightarrow> l | None \<Rightarrow> DefaultLevel)"
    using fold_level [OF gs, of newOption] by (simp add: newOption_def split: option.splits)
  have t: "timeLayout ?opt =
      (case last_setting sets_timeLayout cs of Some t \<Rightarrow> t | None \<Rightarrow> [])"
    using fold_timeLayout [OF gs, of newOption] by (simp add: newOption_def split: option.splits)
  have f: "fields_map ?opt k = last_setting (sets_field k) cs" for k
    using fold_fields [OF gs, of newOption k] by (simp add: newOption_def split: option.splits)
  have n: "NewJSONLogger opts = Inr (fst (assemble ?opt), None)"
    using ap snd_assemble [of ?opt] by (simp add: NewJSONLogger_def prod_eq_iff)
  show ?thesis
    using ap l t f n staticFields_assemble [of ?opt] encoders_assemble [of ?opt] by blast
qed

theorem options_left_to_right_witness:
  "evalCalls (example_os True True)
     [CallWithDebugLevel, CallWithField ''domain'' ''a'', CallWithTimeLayout ''2006-01-02'',
      CallWithWarnLevel, CallWithField ''domain'' ''b'', CallWithField ''env'' ''dev'',
      CallWithTimeLayout ''15:04:05''] [] =
     Inr ([WithDebugLevel, WithField ''domain'' ''a'', WithTimeLayout ''2006-01-02'',
           WithWarnLevel, WithField ''domain'' ''b'', WithField ''env'' ''dev'',
           WithTimeLayout ''15:04:05''], [])
   \<and> (\<exists>(opt :: string option_rec) lg.
        NewJSONLogger [WithDebugLevel, WithField ''domain'' ''a'', WithTimeLayout ''2006-01-02'',
           WithWarnLevel, WithField ''domain'' ''b'', WithField ''env'' ''dev'',
           WithTimeLayout ''15:04:05''] = Inr (lg :: string Logger, None)
      \<and> level opt = WarnLevel
      \<and> timeLayout opt = ''15:04:05''
      \<and> fields_map opt ''domain'' = Some ''b''
      \<and> fields_map opt ''env'' = Some ''dev''
      \<and> fields_map opt ''uid'' = None
      \<and> staticFields lg = fields_map opt)"
proof -
  let ?cs = "[CallWithDebugLevel, CallWithField ''domain'' ''a'',
      CallWithTimeLayout ''2006-01-02'', CallWithWarnLevel, CallWithField ''domain'' ''b'',
      CallWithField ''env'' ''dev'', CallWithTimeLayout ''15:04:05'']"
  let ?opts = "[WithDebugLevel :: string Option, WithField ''domain'' ''a'', WithTimeLayout ''2006-01-02'',
      WithWarnLevel, WithField ''domain'' ''b'', WithField ''env'' ''dev'',
      WithTimeLayout ''15:04:05'']"
  have h1: "evalCalls (example_os True True) ?cs [] = Inr (?opts, [])"
    by simp
  from options_left_to_right [OF h1] obtain opt :: "string option_rec" and lg where
    n: "NewJSONLogger ?opts = Inr (lg, None)" and
    l: "level opt =
      (case last_setting sets_level ?cs of Some l \<Rightarrow> l | None \<Rightarrow> DefaultLevel)" and
    t: "timeLayout opt =
      (case last_setting sets_timeLayout ?cs of Some t \<Rightarrow> t | None \<Rightarrow> [])" and
    f: "\<forall>k. fields_map opt k = last_setting (sets_field k) ?cs" and
    s: "staticFields lg = fields_map opt"
    by blast
  have "level opt = WarnLevel" using l by simp
  moreover have "timeLayout opt = ''15:04:05''" using t by simp
  moreover have "fields_map opt ''domain'' = Some ''b''" using f by simp
  moreover have "fields_map opt ''env'' = Some ''dev''" using f by simp
  moreover have "fields_map opt ''uid'' = None" using f by simp
  ultimately show ?thesis using h1 n s by blast
qed

section \<open>Defaults\<close>

text \<open>
  Claim C8. When no option of the call sets the severity floor, the floor is
  \<open>InfoLevel\<close>; when none sets the time layout, every encoder of the logger formats
  times with the RFC 3339 layout \<^verbatim>\<open>2006-01-02T15:04:05Z07:00\<close>; and when none disables the
  console, console output is enabled: the first two sinks of the logger are stdout and
  stderr.
\<close>

theorem NewJSONLogger_defaults:
  assumes "evalCalls sys cs w = Inr (opts, w1)"
  shows "\<exists>opt lg. applyOptions opts newOption = Inr opt
       \<and> NewJSONLogger opts = Inr (lg, None)
       \<and> ((\<forall>c\<in>set cs. sets_level c = None) \<longrightarrow> level opt = InfoLevel)
       \<and> ((\<forall>c\<in>set cs. sets_timeLayout c = None) \<longrightarrow>
            (\<forall>enc\<in>set (encoders (core lg)).
               EncodeTimeLayout enc = ''2006-01-02T15:04:05Z07:00''))
       \<and> (CallWithDisableConsole \<notin> set cs \<longrightarrow>
            \<not> disableConsole opt \<and> take 2 (sinks (core lg)) = [Lock Stdout, Lock Stderr])"
proof -
  from assms obtain gs where gs: "list_all2 (made_by sys) cs gs"
    and ap: "applyOptions opts newOption = Inr (fold (\<lambda>g x. g x) gs newOption)"
    and n: "NewJSONLogger opts = Inr (fst (assemble (fold (\<lambda>g x. g x) gs newOption)), None)"
    by (rule NewJSONLogger_of_calls)
  let ?opt = "fold (\<lambda>g x. g x) gs newOption"
  have l: "level ?opt = InfoLevel" if "\<forall>c\<in>set cs. sets_level c = None"
    using fold_level [OF gs, of newOption] last_setting_None [OF that]
    by (simp add: newOption_def DefaultLevel_def)
  have t: "\<forall>enc\<in>set (encoders (core (fst (assemble ?opt)))).
      EncodeTimeLayout enc = ''2006-01-02T15:04:05Z07:00''"
    if "\<forall>c\<in>set cs. sets_timeLayout c = None"
    using fold_timeLayout [OF gs, of newOption] last_setting_None [OF that]
      encoders_assemble [of ?opt]
    by (simp add: newOption_def DefaultTimeLayout_def)
  have d: "\<not> disableConsole ?opt" if "CallWithDisableConsole \<notin> set cs"
    using fold_disableConsole [OF gs, of newOption] that by (simp add: newOption_def)
  have s: "take 2 (sinks (core (fst (assemble ?opt)))) = [Lock Stdout, Lock Stderr]"
    if "CallWithDisableConsole \<notin> set cs"
    using d [OF that] by (simp add: sinks_assemble)
  show ?thesis
    using ap n l t d s by blast
qed

theorem NewJSONLogger_defaults_witness:
  "evalCalls (example_os True True) [CallWithField ''domain'' ''api''] [] =
     Inr ([WithField ''domain'' ''api''], [])
   \<and> (\<exists>(opt :: string option_rec) lg.
        NewJSONLogger [WithField ''domain'' ''api'' :: string Option] = Inr (lg, None)
      \<and> level opt = InfoLevel
      \<and> map EncodeTimeLayout (encoders (core lg)) =
          [''2006-01-02T15:04:05Z07:00'', ''2006-01-02T15:04:05Z07:00'']
      \<and> \<not> disableConsole opt
      \<and> sinks (core lg) = [Lock Stdout, Lock Stderr])"
proof -
  let ?cs = "[CallWithField ''domain'' ''api'']"
  let ?opts = "[WithField ''domain'' ''api'' :: string Option]"
  let ?opt = "\<lparr>level = DefaultLevel, fields_map = [''domain'' \<mapsto> ''api''], file_writer = None,
      timeLayout = [], disableConsole = False\<rparr> :: string option_rec"
  have h1: "evalCalls (example_os True True) ?cs [] = Inr (?opts, [])"
    by simp
  from NewJSONLogger_defaults [OF h1] obtain opt :: "string option_rec" and lg where
    n: "NewJSONLogger ?opts = Inr (lg, None)" and
    l: "(\<forall>c\<in>set ?cs. sets_level c = None) \<longrightarrow> level opt = InfoLevel" and
    t: "(\<forall>c\<in>set ?cs. sets_timeLayout c = None) \<longrightarrow>
          (\<forall>enc\<in>set (encoders (core lg)).
             EncodeTimeLayout enc = ''2006-01-02T15:04:05Z07:00'')" and
    d: "CallWithDisableConsole \<notin> set ?cs \<longrightarrow>
          \<not> disableConsole opt \<and> take 2 (sinks (core lg)) = [Lock Stdout, Lock Stderr]"
    by blast
  have "NewJSONLogger ?opts = Inr (assemble ?opt)"
    by (simp add: NewJSONLogger_def WithField_def newOption_def)
  with n have lg: "lg = fst (assemble ?opt)" by (simp add: prod_eq_iff)
  have e: "length (encoders (core lg)) = 2" and s: "length (sinks (core lg)) = 2"
    unfolding lg by (simp_all add: assemble_def Let_def NewCore_def)
  have "map EncodeTimeLayout (encoders (core lg)) =
          [''2006-01-02T15:04:05Z07:00'', ''2006-01-02T15:04:05Z07:00'']"
    using t e by (auto simp: length_Suc_conv numeral_2_eq_2)
  moreover have "sinks (core lg) = [Lock Stdout, Lock Stderr]"
    using d s by simp
  moreover have "level opt = InfoLevel" using l by simp
  moreover have "\<not> disableConsole opt" using d by simp
  ultimately show ?thesis using h1 n
    by (intro conjI exI [of _ opt] exI [of _ lg])
qed

section \<open>A logger without sinks\<close>

text \<open>
  Claim C9. A call of \<^verbatim>\<open>NewJSONLogger\<close> that disables the console and passes no file option
  returns a logger and a nil error, in any state of the system and without changing it. The
  core of that logger is the no-op core: it has no sink, and a record of any severity is
  delivered nowhere.
\<close>

theorem NewJSONLogger_no_sinks:
  assumes "CallWithDisableConsole \<in> set cs" and "\<forall>c\<in>set cs. \<not> is_file_call c"
  shows "\<exists>lg. callNewJSONLogger sys cs w = Inr ((lg, None), w)
       \<and> core lg = NopCore \<and> sinks (core lg) = [] \<and> (\<forall>S. delivered (core lg) S = [])"
proof -
  from evalCalls_no_file [OF assms(2), of sys w] obtain opts where
    ev: "evalCalls sys cs w = Inr (opts, w)" by blast
  then obtain gs where gs: "list_all2 (made_by sys) cs gs"
    and n: "NewJSONLogger opts = Inr (fst (assemble (fold (\<lambda>g x. g x) gs newOption)), None)"
    by (rule NewJSONLogger_of_calls)
  let ?opt = "fold (\<lambda>g x. g x) gs newOption"
  have d: "disableConsole ?opt"
    using fold_disableConsole [OF gs, of newOption] assms(1) by simp
  have "\<not> list_ex is_file_call cs" using assms(2) by (simp add: list_ex_iff)
  then have f: "file_writer ?opt = None"
    using fold_file_writer [OF gs, of newOption] by (simp add: newOption_def)
  have c: "core (fst (assemble ?opt)) = NopCore"
    using d f by (simp add: assemble_def Let_def)
  have "callNewJSONLogger sys cs w = Inr ((fst (assemble ?opt), None), w)"
    using ev n by (simp add: callNewJSONLogger_def)
  with c show ?thesis by (intro exI [of _ "fst (assemble ?opt)"]) simp
qed

theorem NewJSONLogger_no_sinks_witness:
  "\<exists>lg. callNewJSONLogger (example_os True True)
          [CallWithDisableConsole, CallWithField ''domain'' ''api''] [] = Inr ((lg, None), [])
      \<and> core lg = NopCore
      \<and> delivered (core lg) DebugLevel = []
      \<and> delivered (core lg) FatalLevel = []"
proof -
  let ?cs = "[CallWithDisableConsole, CallWithField ''domain'' ''api'']"
  have h1: "CallWithDisableConsole \<in> set ?cs" by simp
  have h2: "\<forall>c\<in>set ?cs. \<not> is_file_call c" by simp
  from NewJSONLogger_no_sinks [OF h1 h2, of "example_os True True" "[]"] show ?thesis by blast
qed

section \<open>The error result\<close>

text \<open>
  Claim C10. Whenever \<^verbatim>\<open>NewJSONLogger\<close> returns, the error it returns is nil, and on
  options that are not nil it does return. A call of \<^verbatim>\<open>NewJSONLogger\<close> on constructor calls
  panics exactly when the evaluation of its arguments panics, that is before
  \<^verbatim>\<open>NewJSONLogger\<close> runs, and the panic then carries the error of the operating system.
\<close>

theorem error_always_nil:
  "(NewJSONLogger opts = Inr (lg, err) \<longrightarrow> err = None)
   \<and> (\<exists>lg'. NewJSONLogger (map Some gs) = Inr (lg', None))
   \<and> (callNewJSONLogger sys cs w = Inl p) = (evalCalls sys cs w = Inl p)
   \<and> (evalCalls sys cs w = Inl p \<longrightarrow> (\<exists>e. p = PanicError e))"
proof (intro conjI impI)
  assume "NewJSONLogger opts = Inr (lg, err)"
  then show "err = None" by (rule NewJSONLogger_err)
next
  show "\<exists>lg'. NewJSONLogger (map Some gs) = Inr (lg', None)"
    using snd_assemble [of "fold (\<lambda>g x. g x) gs newOption"]
    by (simp add: NewJSONLogger_def applyOptions_map_Some prod_eq_iff)
next
  show "(callNewJSONLogger sys cs w = Inl p) = (evalCalls sys cs w = Inl p)"
  proof (cases "evalCalls sys cs w")
    case (Inl q)
    then show ?thesis by (simp add: callNewJSONLogger_def)
  next
    case (Inr r)
    obtain opts w1 where r: "r = (opts, w1)" by (cases r)
    from Inr r obtain gs where
      "NewJSONLogger opts = Inr (fst (assemble (fold (\<lambda>g x. g x) gs newOption)), None)"
      by (auto elim: NewJSONLogger_of_calls)
    with Inr r show ?thesis by (simp add: callNewJSONLogger_def)
  qed
next
  assume "evalCalls sys cs w = Inl p"
  then show "\<exists>e. p = PanicError e"
  proof (induction cs arbitrary: w)
    case Nil
    then show ?case by simp
  next
    case (Cons c cs)
    show ?case
    proof (cases "evalCall sys c w")
      case (Inl q)
      with Cons.prems have q: "q = p" by simp
      from Inl show ?thesis unfolding q
        by (cases c) (auto simp: WithFileP_def WithFileRotationP_def Let_def
            split: sum.splits prod.splits)
    next
      case (Inr r)
      with Cons.prems have "evalCalls sys cs (snd r) = Inl p"
        by (auto split: sum.splits prod.splits)
      then show ?thesis by (rule Cons.IH)
    qed
  qed
qed

theorem error_always_nil_witness:
  "NewJSONLogger [WithDebugLevel :: string Option] =
     Inr (fst (assemble (newOption\<lparr>level := DebugLevel\<rparr>)),
          snd (assemble (newOption\<lparr>level := DebugLevel\<rparr> :: string option_rec)))
   \<and> snd (assemble (newOption\<lparr>level := DebugLevel\<rparr> :: string option_rec)) = None
   \<and> evalCalls (example_os False True) [CallWithFileP ''/var/log/app.log''] [] =
       Inl (PanicError ''mkdir: permission denied'')
   \<and> callNewJSONLogger (example_os False True) [CallWithFileP ''/var/log/app.log''] [] =
       Inl (PanicError ''mkdir: permission denied'')"
proof -
  let ?opt = "newOption\<lparr>level := DebugLevel\<rparr> :: string option_rec"
  have h1: "NewJSONLogger [WithDebugLevel :: string Option] =
      Inr (fst (assemble ?opt), snd (assemble ?opt))"
    by (simp add: NewJSONLogger_def WithDebugLevel_def)
  have h2: "evalCalls (example_os False True) [CallWithFileP ''/var/log/app.log''] [] =
       Inl (PanicError ''mkdir: permission denied'')"
    by (simp add: example_os_def WithFileP_def)
  note inst = error_always_nil [of "[WithDebugLevel]" "fst (assemble ?opt)"
      "snd (assemble ?opt)" "[]" "example_os False True"
      "[CallWithFileP ''/var/log/app.log'']" "[]" "PanicError ''mkdir: permission denied''"]
  from inst h1 have a: "snd (assemble ?opt) = None" by blast
  from inst h2 have b: "callNewJSONLogger (example_os False True)
      [CallWithFileP ''/var/log/app.log''] [] = Inl (PanicError ''mkdir: permission denied'')"
    by blast
  from h1 a h2 b show ?thesis by (intro conjI)
qed

section \<open>Monotone routing\<close>

text \<open>
  Claim C4, as the code has it. Take a logger built by \<^verbatim>\<open>NewJSONLogger\<close> from options made
  by the package's constructors, with severity floor \<open>level opt\<close>, and two severities
  \<open>S1 < S2\<close>. A record at \<open>S1\<close> reaches the file sink exactly when \<open>S1\<close> is at or above
  the floor. For every sink other than stdout, the record at \<open>S2\<close> reaches the sink
  whenever the record at \<open>S1\<close> does. For the stdout sink this holds as long as \<open>S2\<close> is
  below \<open>ErrorLevel\<close>, the upper bound of its band.
\<close>

theorem routing_monotone:
  assumes "evalCalls sys cs w = Inr (opts, w1)"
    and "applyOptions opts newOption = Inr opt"
    and "NewJSONLogger opts = Inr (lg, err)"
    and "S1 <s S2"
  shows "(\<forall>fw. file_writer opt = Some fw \<longrightarrow>
            (fw \<in> set (delivered (core lg) S1)) = (level opt \<le>s S1))
       \<and> (\<forall>sink. sink \<noteq> Lock Stdout \<longrightarrow> sink \<in> set (delivered (core lg) S1) \<longrightarrow>
            sink \<in> set (delivered (core lg) S2))
       \<and> (S2 <s ErrorLevel \<longrightarrow> Lock Stdout \<in> set (delivered (core lg) S1) \<longrightarrow>
            Lock Stdout \<in> set (delivered (core lg) S2))"
proof -
  from assms(2,3) have lg: "lg = fst (assemble opt)"
    by (simp add: NewJSONLogger_def)
  have out: "file_writer opt \<noteq> Some (Lock Stdout)"
    using built_file_sink [OF assms(1,2), of "Lock Stdout"] by auto
  have up: "level opt \<le>s S2" if "level opt \<le>s S1"
    using that assms(4) by (simp add: word_sle_eq word_sless_alt)
  have up': "ErrorLevel \<le>s S2" if "ErrorLevel \<le>s S1"
    using that assms(4) by (simp add: word_sle_eq word_sless_alt)
  show ?thesis
    using out up up' unfolding lg delivered_assemble
    by (auto split: option.splits if_splits)
qed

theorem routing_monotone_witness:
  "InfoLevel <s ErrorLevel
   \<and> evalCalls (example_os True True) [CallWithFileP ''/var/log/app.log''] [] =
       Inr ([Some (\<lambda>opt. opt\<lparr>file_writer := Some (Lock (File ''/var/log/app.log''))\<rparr>)],
            [''/var/log/app.log'', ''/var/log''])
   \<and> Lock (File ''/var/log/app.log'') \<in> set (delivered (core (fst (assemble
         (newOption\<lparr>file_writer := Some (Lock (File ''/var/log/app.log''))\<rparr>)))) InfoLevel)
   \<and> Lock (File ''/var/log/app.log'') \<in> set (delivered (core (fst (assemble
         (newOption\<lparr>file_writer := Some (Lock (File ''/var/log/app.log''))\<rparr>)))) ErrorLevel)"
proof -
  let ?f = "Some (\<lambda>opt. opt\<lparr>file_writer := Some (Lock (File ''/var/log/app.log''))\<rparr>)"
  let ?opt = "newOption\<lparr>file_writer := Some (Lock (File ''/var/log/app.log''))\<rparr>"
  have h1: "evalCalls (example_os True True) [CallWithFileP ''/var/log/app.log''] [] =
        Inr ([?f], [''/var/log/app.log'', ''/var/log''])"
    by (simp add: example_os_def WithFileP_def)
  have h2: "applyOptions [?f] newOption = Inr ?opt"
    by simp
  have h3: "NewJSONLogger [?f] = Inr (fst (assemble ?opt), snd (assemble ?opt))"
    by (simp add: NewJSONLogger_def)
  have h4: "InfoLevel <s ErrorLevel"
    by (simp add: level_defs word_sless_alt)
  have f: "file_writer ?opt = Some (Lock (File ''/var/log/app.log''))"
    by simp
  have l: "level ?opt \<le>s InfoLevel"
    by (simp add: newOption_def level_defs)
  note inst = routing_monotone [OF h1 h2 h3 h4]
  from inst f l have a: "Lock (File ''/var/log/app.log'') \<in>
      set (delivered (core (fst (assemble ?opt))) InfoLevel)"
    by blast
  with inst have b: "Lock (File ''/var/log/app.log'') \<in>
      set (delivered (core (fst (assemble ?opt))) ErrorLevel)"
    by blast
  from h4 h1 a b show ?thesis by (intro conjI)
qed

text \<open>
  The claim as written, for every sink, fails at the stdout sink: with the default floor
  \<open>InfoLevel\<close>, a record at \<open>InfoLevel\<close> reaches stdout and a record at the higher
  \<open>ErrorLevel\<close>, which is at or above the floor too, does not.
\<close>

theorem routing_monotone_counterexample:
  "InfoLevel <s ErrorLevel
   \<and> \<not> isl (NewJSONLogger ([] :: string Option list))
   \<and> Lock Stdout \<in> set (delivered (core (fst (projr (NewJSONLogger ([] :: string Option list)))))
         InfoLevel)
   \<and> Lock Stdout \<notin> set (delivered (core (fst (projr (NewJSONLogger ([] :: string Option list)))))
         ErrorLevel)"
  by (simp add: NewJSONLogger_def delivered_assemble newOption_def level_defs
        word_sle_eq word_sless_alt)

section \<open>Failures of the file options\<close>

text \<open>
  Claim C5, as the code has it. In a call of \<^verbatim>\<open>NewJSONLogger\<close> whose arguments before a
  file option evaluate without a panic: when the log directory cannot be created, the call
  panics with that error for \<^verbatim>\<open>WithFileP\<close> and for \<^verbatim>\<open>WithFileRotationP\<close>; when the
  directory is there and the log file cannot be opened, the call panics with that error for
  \<^verbatim>\<open>WithFileP\<close>. In each case the call returns nothing, so no logger reaches the caller.
  \<^verbatim>\<open>WithFileRotationP\<close> does not open the file: it returns its option as soon as the
  directory is there.
\<close>

theorem file_option_failures:
  assumes "evalCalls sys pre w = Inr (fs, w0)"
  shows "(os_MkdirAll sys (filepath_Dir sys path) perm_0766 w0 = Inl e \<longrightarrow>
            callNewJSONLogger sys (pre @ CallWithFileP path # post) w = Inl (PanicError e)
          \<and> callNewJSONLogger sys (pre @ CallWithFileRotationP path # post) w =
              Inl (PanicError e))
       \<and> (os_MkdirAll sys (filepath_Dir sys path) perm_0766 w0 = Inr wa
          \<and> os_OpenFile sys path [O_CREATE, O_APPEND, O_RDWR] perm_0766 wa = Inl e \<longrightarrow>
            callNewJSONLogger sys (pre @ CallWithFileP path # post) w = Inl (PanicError e))
       \<and> (os_MkdirAll sys (filepath_Dir sys path) perm_0766 w0 = Inr wa \<longrightarrow>
            (\<exists>f. WithFileRotationP sys path w0 = Inr (f, wa)))"
proof (intro conjI impI)
  assume m: "os_MkdirAll sys (filepath_Dir sys path) perm_0766 w0 = Inl e"
  then have "evalCall sys (CallWithFileP path) w0 = Inl (PanicError e)"
    by (simp add: WithFileP_def)
  with assms show "callNewJSONLogger sys (pre @ CallWithFileP path # post) w = Inl (PanicError e)"
    by (rule call_panics_at)
  from m have "evalCall sys (CallWithFileRotationP path) w0 = Inl (PanicError e)"
    by (simp add: WithFileRotationP_def)
  with assms show
    "callNewJSONLogger sys (pre @ CallWithFileRotationP path # post) w = Inl (PanicError e)"
    by (rule call_panics_at)
next
  assume "os_MkdirAll sys (filepath_Dir sys path) perm_0766 w0 = Inr wa
    \<and> os_OpenFile sys path [O_CREATE, O_APPEND, O_RDWR] perm_0766 wa = Inl e"
  then have "evalCall sys (CallWithFileP path) w0 = Inl (PanicError e)"
    by (simp add: WithFileP_def)
  with assms show "callNewJSONLogger sys (pre @ CallWithFileP path # post) w = Inl (PanicError e)"
    by (rule call_panics_at)
next
  assume "os_MkdirAll sys (filepath_Dir sys path) perm_0766 w0 = Inr wa"
  then show "\<exists>f. WithFileRotationP sys path w0 = Inr (f, wa)"
    by (simp add: WithFileRotationP_def)
qed

theorem file_option_failures_witness:
  "callNewJSONLogger (example_os False True)
       [CallWithDisableConsole, CallWithFileP ''/var/log/app.log'', CallWithInfoLevel] [] =
     Inl (PanicError ''mkdir: permission denied'')
   \<and> callNewJSONLogger (example_os False True)
       [CallWithDisableConsole, CallWithFileRotationP ''/var/log/app.log'', CallWithInfoLevel] [] =
     Inl (PanicError ''mkdir: permission denied'')
   \<and> callNewJSONLogger (example_os True False)
       [CallWithDisableConsole, CallWithFileP ''/var/log/app.log'', CallWithInfoLevel] [] =
     Inl (PanicError ''open: permission denied'')
   \<and> (\<exists>f. WithFileRotationP (example_os True False) ''/var/log/app.log'' [] =
          Inr (f, [''/var/log'']))"
proof -
  have pre: "evalCalls (example_os mk opn) [CallWithDisableConsole] [] =
      Inr ([WithDisableConsole], [])" for mk opn
    by simp
  have m1: "os_MkdirAll (example_os False True)
      (filepath_Dir (example_os False True) ''/var/log/app.log'') perm_0766 [] =
      Inl ''mkdir: permission denied''"
    by (simp add: example_os_def)
  have m2: "os_MkdirAll (example_os True False)
      (filepath_Dir (example_os True False) ''/var/log/app.log'') perm_0766 [] =
      Inr [''/var/log'']"
    by (simp add: example_os_def)
  have o2: "os_OpenFile (example_os True False) ''/var/log/app.log''
      [O_CREATE, O_APPEND, O_RDWR] perm_0766 [''/var/log''] = Inl ''open: permission denied''"
    by (simp add: example_os_def)
  note i1 = file_option_failures [OF pre [of False True],
      where path = "''/var/log/app.log''" and e = "''mkdir: permission denied''"
        and post = "[CallWithInfoLevel]" and wa = "[]"]
  note i2 = file_option_failures [OF pre [of True False],
      where path = "''/var/log/app.log''" and e = "''open: permission denied''"
        and post = "[CallWithInfoLevel]" and wa = "[''/var/log'']"]
  from i1 m1 i2 m2 o2 show ?thesis by simp
qed

text \<open>
  The claim as written, for every file option, fails at \<^verbatim>\<open>WithFileRotationP\<close>: on a system
  where the log file cannot be opened, the call returns a logger with a nil error, and the
  rotating writer is one of its sinks.
\<close>

theorem file_option_failures_counterexample:
  "os_OpenFile (example_os True False) ''/var/log/app.log'' [O_CREATE, O_APPEND, O_RDWR]
      perm_0766 [''/var/log''] = Inl ''open: permission denied''
   \<and> \<not> isl (callNewJSONLogger (example_os True False)
              [CallWithFileRotationP ''/var/log/app.log''] [])
   \<and> snd (fst (projr (callNewJSONLogger (example_os True False)
              [CallWithFileRotationP ''/var/log/app.log''] []))) = None
   \<and> sinks (core (fst (fst (projr (callNewJSONLogger (example_os True False)
              [CallWithFileRotationP ''/var/log/app.log''] []))))) =
        [Lock Stdout, Lock Stderr,
         Lumberjack \<lparr>Filename = ''/var/log/app.log'', MaxSize = 128, MaxBackups = 300,
           MaxAge = 30, LocalTime = True, Compress = True\<rparr>]"
  by (simp add: callNewJSONLogger_def NewJSONLogger_def WithFileRotationP_def example_os_def
        newOption_def sinks_assemble snd_assemble)

section \<open>The rotating file option\<close>

text \<open>
  Claim C3, as the code has it. \<^verbatim>\<open>WithFileRotationP\<close> takes the path and nothing else.
  Whenever it returns, its option stores a lumberjack writer for that path whose rotation
  parameters are fixed: a size cap of 128 megabytes, 300 backups, a maximal age of 30 days,
  local time and compression. The policy is the same for every call.
\<close>

theorem rotation_fixed:
  assumes "WithFileRotationP sys path w = Inr (f, w1)"
  shows "(\<exists>g. f = Some g \<and>
            (\<forall>opt. file_writer (g opt) =
               Some (Lumberjack \<lparr>Filename = path, MaxSize = 128, MaxBackups = 300,
                       MaxAge = 30, LocalTime = True, Compress = True\<rparr>)))
       \<and> rotationPolicyOf (WithFileRotationP sys path w) = Some (128, 300, 30, True)"
proof -
  from WithFileRotationP_Inr [OF assms] have f: "f = Some (\<lambda>opt. opt\<lparr>file_writer := Some (Lumberjack
            \<lparr>Filename = path, MaxSize = 128, MaxBackups = 300, MaxAge = 30,
             LocalTime = True, Compress = True\<rparr>)\<rparr>)" .
  show ?thesis
    unfolding assms using f by (simp add: rotationPolicyOf_def rotation_policy_def)
qed

theorem rotation_fixed_witness:
  "(\<exists>g. WithFileRotationP (example_os True True) ''/var/log/app.log'' [] =
          Inr (Some g, [''/var/log''])
        \<and> file_writer (g (newOption :: string option_rec)) =
            Some (Lumberjack \<lparr>Filename = ''/var/log/app.log'', MaxSize = 128, MaxBackups = 300,
                    MaxAge = 30, LocalTime = True, Compress = True\<rparr>))
   \<and> rotationPolicyOf (WithFileRotationP (example_os True True) ''/var/log/app.log'' []) =
       Some (128, 300, 30, True)"
proof -
  let ?f = "Some (\<lambda>opt. opt\<lparr>file_writer := Some (Lumberjack
            \<lparr>Filename = ''/var/log/app.log'', MaxSize = 128, MaxBackups = 300, MaxAge = 30,
             LocalTime = True, Compress = True\<rparr>)\<rparr>) :: string Option"
  have h: "WithFileRotationP (example_os True True) ''/var/log/app.log'' [] =
      Inr (?f, [''/var/log''])"
    by (simp add: WithFileRotationP_def example_os_def)
  from rotation_fixed [OF h] h show ?thesis by auto
qed

text \<open>
  The claim as written fails: a caller who wants the policy of the parameters
  \<open>(64, 10, 7, False)\<close>, or that of \<open>(256, 5, 1, True)\<close>, gets neither from the option, which
  cannot be given them.
\<close>

theorem rotation_fixed_counterexample:
  "spec_fileSinkRotate_policy 64 10 7 False \<noteq> spec_fileSinkRotate_policy 256 5 1 True
   \<and> rotationPolicyOf (WithFileRotationP (example_os True True) ''/var/log/app.log'' []) \<noteq>
       Some (spec_fileSinkRotate_policy 64 10 7 False)
   \<and> rotationPolicyOf (WithFileRotationP (example_os True True) ''/var/log/app.log'' []) \<noteq>
       Some (spec_fileSinkRotate_policy 256 5 1 True)"
  by (simp add: spec_fileSinkRotate_policy_def rotationPolicyOf_def rotation_policy_def
        WithFileRotationP_def example_os_def)

section \<open>WrapMeta\<close>

text \<open>
  Claim C6. For every error \<open>err\<close> and all metas \<open>m1, ..., mn\<close>, \<^verbatim>\<open>WrapMeta\<close> returns the
  list made of an error field, present exactly when \<open>err\<close> is not nil, then the
  namespace field of key \<^verbatim>\<open>meta\<close>, then the fields of key \<open>Key mi\<close> and value \<open>Value mi\<close>
  in the order of the metas. Its length is \<open>n + 1\<close> when \<open>err\<close> is nil and \<open>n + 2\<close>
  otherwise.
\<close>

theorem WrapMeta_fields:
  "\<exists>fs. WrapMeta err (map Some ms) = Inr fs
      \<and> fs = (case err of None \<Rightarrow> [] | Some e \<Rightarrow> [zap_Error e])
             @ zap_Namespace ''meta'' # map (\<lambda>m. zap_Any (Key m) (Value m)) ms
      \<and> length fs = (if err = None then length ms + 1 else length ms + 2)"
proof (cases err)
  case None
  then have "WrapMeta err (map Some ms) =
      Inr (zap_Namespace ''meta'' # map (\<lambda>m. zap_Any (Key m) (Value m)) ms)"
    by (simp add: WrapMeta_def appendMetas_Some)
  with None show ?thesis by simp
next
  case (Some e)
  then have "WrapMeta err (map Some ms) =
      Inr (zap_Error e # zap_Namespace ''meta'' # map (\<lambda>m. zap_Any (Key m) (Value m)) ms)"
    by (simp add: WrapMeta_def appendMetas_Some)
  with Some show ?thesis by simp
qed

text \<open>Two runs of \<^verbatim>\<open>WrapMeta\<close> on metas made by \<^verbatim>\<open>NewMeta\<close>, and one on a nil meta.\<close>

lemma WrapMeta_example:
  "WrapMeta (Some ''timeout'') [NewMeta ''uid'' (7 :: int), NewMeta ''attempt'' 2] =
     Inr [zap_Error ''timeout'', zap_Namespace ''meta'', zap_Any ''uid'' 7, zap_Any ''attempt'' 2]
   \<and> WrapMeta None [NewMeta ''uid'' (7 :: int)] = Inr [zap_Namespace ''meta'', zap_Any ''uid'' 7]
   \<and> WrapMeta None [NewMeta ''uid'' (7 :: int), None] = Inl NilDereference"
  by (simp add: WrapMeta_def NewMeta_def Key_def Value_def)

section \<open>Close\<close>

text \<open>
  Claim C2. Suppose that no signal ends the process while \<^verbatim>\<open>Close\<close> runs: every signal
  that arrives before \<^verbatim>\<open>signal.Stop\<close> takes effect is relayed to the hook or has a default
  action that does not end the process, and no signal that arrives after it has a default
  action that ends the process. Then the process is not ended, and \<^verbatim>\<open>Close\<close> blocks
  exactly when the channel is empty and none of the signals that arrive is relayed to the
  hook. When it starts on an empty channel and does not block, it has waited through the
  signals that are not relayed and received the first one that is, and only that one. The
  relay of signals to the hook is stopped in the state the loop over the callbacks starts
  in, and \<^verbatim>\<open>Close\<close> returns exactly when the callbacks run one after the other in the
  given order, each starting in the state the one before it returned: it returns the state
  the last one returns.
\<close>

theorem Close_contract:
  assumes "\<forall>s\<in>set pending. relayed sys rt s \<or> \<not> ends_process sys s"
    and "\<forall>sigs\<in>set during. \<forall>s\<in>set sigs. \<not> ends_process sys s"
  shows "(Close sys funcs rt pending during = Blocked) =
          (ctx_buf rt = [] \<and> (\<forall>s\<in>set pending. \<not> relayed sys rt s))
   \<and> (\<forall>k. Close sys funcs rt pending during \<noteq> Killed k)
   \<and> (ctx_buf rt = [] \<and> Close sys funcs rt pending during \<noteq> Blocked \<longrightarrow>
        (\<exists>before s later. pending = before @ s # later
           \<and> (\<forall>x\<in>set before. \<not> relayed sys rt x) \<and> relayed sys rt s
           \<and> receive sys rt pending = Gets s rt later))
   \<and> (receive sys rt pending = Gets s rt1 later \<longrightarrow>
        (\<exists>rt2. arrivals sys later rt1 = Alive rt2
           \<and> ctx_notify (signal_Stop rt2) = {}
           \<and> (\<forall>rt'. (Close sys funcs rt pending during = Returned rt') =
                 (\<exists>sts. chain sys funcs during (signal_Stop rt2 # sts)
                    \<and> last (signal_Stop rt2 # sts) = rt'))))
   \<and> (\<forall>sts. chain sys funcs during sts \<longrightarrow>
        length sts = Suc (length funcs)
        \<and> (\<forall>i<length funcs. \<exists>st0.
              arrivals sys (next_batch (drop i during)) (sts ! i) = Alive st0
              \<and> (funcs ! i) st0 = Inr (sts ! Suc i)))"
proof (intro conjI)
  let ?Q = "\<lambda>s. \<not> relayed sys rt s"
  show "(Close sys funcs rt pending during = Blocked) =
      (ctx_buf rt = [] \<and> (\<forall>s\<in>set pending. \<not> relayed sys rt s))"
  proof (cases "ctx_buf rt")
    case Nil
    have "(receive sys rt pending = Waits) = (dropWhile ?Q pending = [])"
      unfolding receive_empty_alive [OF Nil assms(1)] by (rule case_Waits)
    also have "\<dots> = (\<forall>s\<in>set pending. \<not> relayed sys rt s)"
      by (simp add: dropWhile_eq_Nil_conv)
    finally show ?thesis
      using Nil by (simp add: Close_blocked)
  next
    case (Cons s0 rest)
    then show ?thesis
      by (simp add: Close_blocked receive_buffered)
  qed
next
  show "\<forall>k. Close sys funcs rt pending during \<noteq> Killed k"
  proof
    fix k
    show "Close sys funcs rt pending during \<noteq> Killed k"
    proof (cases "receive sys rt pending")
      case Waits
      then show ?thesis by (simp add: Close_def)
    next
      case (Dies j)
      with receive_not_Dies [OF assms(1), of j] show ?thesis by simp
    next
      case (Gets s0 rt0 later0)
      from arrivals_after_receive [OF assms(1) Gets] obtain rt2 where
        "arrivals sys later0 rt0 = Alive rt2" by blast
      with Gets show ?thesis
        by (simp add: Close_def runFuncs_not_killed [OF assms(2)])
    qed
  qed
next
  show "ctx_buf rt = [] \<and> Close sys funcs rt pending during \<noteq> Blocked \<longrightarrow>
        (\<exists>before s later. pending = before @ s # later
           \<and> (\<forall>x\<in>set before. \<not> relayed sys rt x) \<and> relayed sys rt s
           \<and> receive sys rt pending = Gets s rt later)"
  proof
    assume a: "ctx_buf rt = [] \<and> Close sys funcs rt pending during \<noteq> Blocked"
    then have buf: "ctx_buf rt = []" and nw: "receive sys rt pending \<noteq> Waits"
      by (simp_all add: Close_blocked)
    let ?Q = "\<lambda>s. \<not> relayed sys rt s"
    from nw have "dropWhile ?Q pending \<noteq> []"
      unfolding receive_empty_alive [OF buf assms(1)] case_Waits .
    then obtain s later where d: "dropWhile ?Q pending = s # later"
      by (cases "dropWhile ?Q pending") simp_all
    have p: "pending = takeWhile ?Q pending @ s # later"
      using takeWhile_dropWhile_id [of ?Q pending] d by simp
    have b: "\<forall>x\<in>set (takeWhile ?Q pending). \<not> relayed sys rt x"
      using set_takeWhileD by fastforce
    have "\<not> ?Q (hd (dropWhile ?Q pending))"
      by (rule hd_dropWhile) (simp add: d)
    with d have s: "relayed sys rt s" by simp
    have r: "receive sys rt pending = Gets s rt later"
      using d by (simp add: receive_empty_alive [OF buf assms(1)])
    from p b s r show "\<exists>before s later. pending = before @ s # later
           \<and> (\<forall>x\<in>set before. \<not> relayed sys rt x) \<and> relayed sys rt s
           \<and> receive sys rt pending = Gets s rt later"
      by (intro exI [of _ "takeWhile ?Q pending"] exI [of _ s] exI [of _ later] conjI)
  qed
next
  show "receive sys rt pending = Gets s rt1 later \<longrightarrow>
        (\<exists>rt2. arrivals sys later rt1 = Alive rt2
           \<and> ctx_notify (signal_Stop rt2) = {}
           \<and> (\<forall>rt'. (Close sys funcs rt pending during = Returned rt') =
                 (\<exists>sts. chain sys funcs during (signal_Stop rt2 # sts)
                    \<and> last (signal_Stop rt2 # sts) = rt')))"
  proof
    assume r: "receive sys rt pending = Gets s rt1 later"
    from arrivals_after_receive [OF assms(1) r] obtain rt2 where
      a: "arrivals sys later rt1 = Alive rt2" by blast
    have n: "ctx_notify (signal_Stop rt2) = {}" by (simp add: signal_Stop_def)
    have c: "(Close sys funcs rt pending during = Returned rt') =
        (\<exists>sts. chain sys funcs during (signal_Stop rt2 # sts)
           \<and> last (signal_Stop rt2 # sts) = rt')" for rt'
    proof -
      have "(Close sys funcs rt pending during = Returned rt') =
          (runFuncs sys funcs during (signal_Stop rt2) = Returned rt')"
        using r a by (simp add: Close_def)
      then show ?thesis by (simp only: runFuncs_chain)
    qed
    from a n c show "\<exists>rt2. arrivals sys later rt1 = Alive rt2
           \<and> ctx_notify (signal_Stop rt2) = {}
           \<and> (\<forall>rt'. (Close sys funcs rt pending during = Returned rt') =
                 (\<exists>sts. chain sys funcs during (signal_Stop rt2 # sts)
                    \<and> last (signal_Stop rt2 # sts) = rt'))"
      by (intro exI [of _ rt2] conjI allI)
  qed
next
  show "\<forall>sts. chain sys funcs during sts \<longrightarrow>
        length sts = Suc (length funcs)
        \<and> (\<forall>i<length funcs. \<exists>st0.
              arrivals sys (next_batch (drop i during)) (sts ! i) = Alive st0
              \<and> (funcs ! i) st0 = Inr (sts ! Suc i))"
    using chain_length chain_nth by blast
qed

theorem Close_contract_witness:
  "Close example_sigsys
      [example_callback ''http'', example_callback ''db'', example_callback ''cache'']
      (NewHook []) [17, SIGTERM, SIGINT] [[17], [], [17]] =
     Returned \<lparr>ctx_buf = [SIGINT], ctx_notify = {},
       program = [(''http'', True), (''db'', True), (''cache'', True)]\<rparr>
   \<and> receive example_sigsys (NewHook ([] :: (string \<times> bool) list)) [17, SIGTERM, SIGINT] =
       Gets SIGTERM (NewHook []) [SIGINT]
   \<and> Close example_sigsys
      [example_callback ''http'', example_callback ''db'', example_callback ''cache'']
      (NewHook []) [17, 17] [] = Blocked"
proof -
  let ?sys = example_sigsys
  let ?funcs = "[example_callback ''http'', example_callback ''db'', example_callback ''cache'']"
  let ?rt = "NewHook ([] :: (string \<times> bool) list)"
  let ?during = "[[17], [], [17]] :: Signal list list"
  let ?st0 = "\<lparr>ctx_buf = [SIGINT], ctx_notify = {}, program = [] :: (string \<times> bool) list\<rparr>"
  let ?st1 = "\<lparr>ctx_buf = [SIGINT], ctx_notify = {}, program = [(''http'', True)]\<rparr>"
  let ?st2 = "\<lparr>ctx_buf = [SIGINT], ctx_notify = {},
    program = [(''http'', True), (''db'', True)]\<rparr>"
  let ?st3 = "\<lparr>ctx_buf = [SIGINT], ctx_notify = {},
    program = [(''http'', True), (''db'', True), (''cache'', True)]\<rparr>"
  have rt: "?rt = \<lparr>ctx_buf = [], ctx_notify = {SIGTERM, SIGINT}, program = []\<rparr>"
    by (simp add: NewHook_def signal_Notify_def)
  have h1: "\<forall>s\<in>set [17, SIGTERM, SIGINT]. relayed ?sys ?rt s \<or> \<not> ends_process ?sys s"
    by (simp add: rt relayed_def example_sigsys_def SIGTERM_def SIGINT_def)
  have h2: "\<forall>sigs\<in>set ?during. \<forall>s\<in>set sigs. \<not> ends_process ?sys s"
    by (simp add: example_sigsys_def)
  have r: "receive ?sys ?rt [17, SIGTERM, SIGINT] = Gets SIGTERM ?rt [SIGINT]"
    unfolding rt
    by (simp add: receive_wait receive_buffered arrive_def relayed_def example_sigsys_def
          SIGTERM_def SIGINT_def)
  have a: "arrivals ?sys [SIGINT] ?rt = Alive (?rt\<lparr>ctx_buf := [SIGINT]\<rparr>)"
    unfolding rt
    by (simp add: arrive_def relayed_def example_sigsys_def SIGTERM_def SIGINT_def)
  have stop: "signal_Stop (?rt\<lparr>ctx_buf := [SIGINT]\<rparr>) = ?st0"
    by (simp add: rt signal_Stop_def)
  have c: "chain ?sys ?funcs ?during (?st0 # [?st1, ?st2, ?st3])
      \<and> last (?st0 # [?st1, ?st2, ?st3]) = ?st3"
    by (simp add: example_callback_def arrive_def relayed_def example_sigsys_def)
  note inst = Close_contract [OF h1 h2, of ?funcs SIGTERM ?rt "[SIGINT]"]
  note dispatch = inst [THEN conjunct2, THEN conjunct2, THEN conjunct2, THEN conjunct1,
      THEN mp, OF r]
  from dispatch obtain rt2 where all: "arrivals ?sys [SIGINT] ?rt = Alive rt2
      \<and> ctx_notify (signal_Stop rt2) = {}
      \<and> (\<forall>rt'. (Close ?sys ?funcs ?rt [17, SIGTERM, SIGINT] ?during = Returned rt') =
            (\<exists>sts. chain ?sys ?funcs ?during (signal_Stop rt2 # sts)
               \<and> last (signal_Stop rt2 # sts) = rt'))" ..
  from a all [THEN conjunct1] have "rt2 = ?rt\<lparr>ctx_buf := [SIGINT]\<rparr>" by simp
  with stop have st: "signal_Stop rt2 = ?st0" by simp
  have ex: "\<exists>sts. chain ?sys ?funcs ?during (signal_Stop rt2 # sts)
      \<and> last (signal_Stop rt2 # sts) = ?st3"
    unfolding st using c by (rule exI [of _ "[?st1, ?st2, ?st3]"])
  from all [THEN conjunct2, THEN conjunct2, THEN spec, of ?st3] ex
  have ret: "Close ?sys ?funcs ?rt [17, SIGTERM, SIGINT] ?during = Returned ?st3"
    by (rule iffD2)
  have h3: "\<forall>s\<in>set [17, 17]. relayed ?sys ?rt s \<or> \<not> ends_process ?sys s"
    by (simp add: example_sigsys_def)
  have h4: "\<forall>sigs\<in>set ([] :: Signal list list). \<forall>s\<in>set sigs. \<not> ends_process ?sys s"
    by simp
  have q: "ctx_buf ?rt = [] \<and> (\<forall>s\<in>set [17, 17]. \<not> relayed ?sys ?rt s)"
    by (simp add: rt relayed_def SIGTERM_def SIGINT_def)
  from Close_contract [OF h3 h4, of ?funcs, THEN conjunct1] q
  have blk: "Close ?sys ?funcs ?rt [17, 17] [] = Blocked"
    by (rule iffD2)
  from ret r blk show ?thesis by (intro conjI)
qed

text \<open>
  Without the hypothesis the process can end before \<^verbatim>\<open>Close\<close> returns: on a
  \<^verbatim>\<open>SIGHUP\<close> that arrives while it waits, on a second \<^verbatim>\<open>SIGINT\<close> that arrives after
  \<^verbatim>\<open>signal.Stop\<close>, between the first callback and the second, and on a \<^verbatim>\<open>SIGKILL\<close>
  even when it is registered.
\<close>

lemma Close_killed_examples:
  "Close example_sigsys [example_callback ''http'', example_callback ''db'']
      (NewHook []) [1, SIGTERM] [] = Killed 1
   \<and> Close example_sigsys [example_callback ''http'', example_callback ''db'']
      (NewHook []) [SIGTERM] [[], [SIGINT]] = Killed SIGINT
   \<and> Close example_sigsys [example_callback ''http'', example_callback ''db'']
      (WithSignals [9] (NewHook [])) [9] [] = Killed 9"
  by (simp add: Close_def NewHook_def signal_Notify_def signal_Stop_def receive_wait
        receive_buffered arrive_def relayed_def example_sigsys_def example_callback_def
        SIGTERM_def SIGINT_def)

end
